theory Spec2Isabelle
  imports Main "HOL-Library.Word"
begin

unbundle bit_operations_syntax

section \<open>Go strings and the standard-library functions the hasher calls\<close>

text \<open>
  A Go string is a sequence of bytes; it is modelled as a \<open>string\<close> (a list of 8-bit
  characters), so \<open>length\<close> is Go's \<open>len\<close> (a byte count) and \<open>take n\<close> is the slice
  \<open>s[:n]\<close>. Runes (code points) are natural numbers. The functions of this section
  follow \<open>unicode/utf8\<close>, \<open>unicode\<close> and \<open>strings\<close> of the Go standard library, which
  \<open>internal/hash/hash.go\<close> calls.
\<close>

definition RuneError :: nat where
  "RuneError = 0xFFFD"

definition RuneSelf :: nat where
  "RuneSelf = 0x80"

definition byte :: "char \<Rightarrow> nat" where
  "byte c = of_char c"

text \<open>\<open>utf8.RuneStart\<close>: the byte is not a continuation byte.\<close>

definition RuneStart :: "char \<Rightarrow> bool" where
  "RuneStart c = (byte c AND 0xC0 \<noteq> 0x80)"

text \<open>The table \<open>first\<close> of \<open>unicode/utf8\<close>: the length of the encoding a leading byte
  announces (0 for a byte that starts no encoding) and the range its second byte must
  lie in.\<close>

definition firstSize :: "nat \<Rightarrow> nat" where
  "firstSize s0 =
     (if s0 < 0xC2 then 0
      else if s0 < 0xE0 then 2
      else if s0 < 0xF0 then 3
      else if s0 < 0xF5 then 4
      else 0)"

definition acceptLo :: "nat \<Rightarrow> nat" where
  "acceptLo s0 = (if s0 = 0xE0 then 0xA0 else if s0 = 0xF0 then 0x90 else 0x80)"

definition acceptHi :: "nat \<Rightarrow> nat" where
  "acceptHi s0 = (if s0 = 0xED then 0x9F else if s0 = 0xF4 then 0x8F else 0xBF)"

definition isCont :: "nat \<Rightarrow> bool" where
  "isCont b = (0x80 \<le> b \<and> b \<le> 0xBF)"

text \<open>\<open>utf8.DecodeRuneInString\<close>: the first rune of a string and its width in bytes;
  \<open>(RuneError, 0)\<close> on the empty string, \<open>(RuneError, 1)\<close> on an invalid encoding.\<close>

definition DecodeRuneInString :: "string \<Rightarrow> nat \<times> nat" where
  "DecodeRuneInString s =
     (if s = [] then (RuneError, 0)
      else
        let s0 = byte (s ! 0) in
        if s0 < RuneSelf then (s0, 1)
        else if firstSize s0 = 0 then (RuneError, 1)
        else if length s < firstSize s0 then (RuneError, 1)
        else
          let s1 = byte (s ! 1) in
          if s1 < acceptLo s0 \<or> acceptHi s0 < s1 then (RuneError, 1)
          else if firstSize s0 \<le> 2 then (push_bit 6 (s0 AND 0x1F) OR (s1 AND 0x3F), 2)
          else
            let s2 = byte (s ! 2) in
            if \<not> isCont s2 then (RuneError, 1)
            else if firstSize s0 \<le> 3
              then (push_bit 12 (s0 AND 0x0F) OR push_bit 6 (s1 AND 0x3F) OR (s2 AND 0x3F), 3)
            else
              let s3 = byte (s ! 3) in
              if \<not> isCont s3 then (RuneError, 1)
              else (push_bit 18 (s0 AND 0x07) OR push_bit 12 (s1 AND 0x3F)
                      OR push_bit 6 (s2 AND 0x3F) OR (s3 AND 0x3F), 4))"

text \<open>The backwards scan of \<open>utf8.DecodeLastRuneInString\<close>:
  \<^verbatim>\<open>for start--; start >= lim; start-- { if RuneStart(s[start]) { break } }\<close>.\<close>

function lastStart :: "string \<Rightarrow> int \<Rightarrow> int \<Rightarrow> int" where
  "lastStart s start lim =
     (if lim \<le> start
      then (if RuneStart (s ! nat start) then start else lastStart s (start - 1) lim)
      else start)"
  by pat_completeness auto
termination
  by (relation "measure (\<lambda>(s, start, lim). nat (start - lim + 1))") auto

declare lastStart.simps [simp del]

definition DecodeLastRuneInString :: "string \<Rightarrow> nat \<times> nat" where
  "DecodeLastRuneInString s =
     (let end = int (length s) in
      if end = 0 then (RuneError, 0)
      else
        let r = byte (s ! nat (end - 1)) in
        if r < RuneSelf then (r, 1)
        else
          let lim = (if end - 4 < 0 then 0 else end - 4);
              start0 = lastStart s (end - 2) lim;
              start = (if start0 < 0 then 0 else start0);
              (r, size) = DecodeRuneInString (drop (nat start) s)
          in if start + int size \<noteq> end then (RuneError, 1) else (r, size))"

text \<open>\<open>utf8.AppendRune\<close>, which \<open>strings.Builder.WriteRune\<close> calls.\<close>

definition AppendRune :: "nat \<Rightarrow> string" where
  "AppendRune r =
     (if r \<le> 0x7F then [char_of r]
      else if r \<le> 0x7FF then [char_of (0xC0 OR drop_bit 6 r), char_of (0x80 OR (r AND 0x3F))]
      else if 0x10FFFF < r \<or> (0xD800 \<le> r \<and> r \<le> 0xDFFF)
        then [CHR 0xEF, CHR 0xBF, CHR 0xBD]
      else if r \<le> 0xFFFF
        then [char_of (0xE0 OR drop_bit 12 r), char_of (0x80 OR (drop_bit 6 r AND 0x3F)),
              char_of (0x80 OR (r AND 0x3F))]
      else [char_of (0xF0 OR drop_bit 18 r), char_of (0x80 OR (drop_bit 12 r AND 0x3F)),
            char_of (0x80 OR (drop_bit 6 r AND 0x3F)), char_of (0x80 OR (r AND 0x3F))])"

text \<open>\<open>unicode.IsControl\<close>: the category Cc, which lies within Latin-1.\<close>

definition IsControl :: "nat \<Rightarrow> bool" where
  "IsControl r = (r < 0x20 \<or> (0x7F \<le> r \<and> r < 0xA0))"

text \<open>\<open>unicode.IsSpace\<close>: the property White_Space.\<close>

definition IsSpace :: "nat \<Rightarrow> bool" where
  "IsSpace r =
     (if r \<le> 0xFF
      then r \<in> set [0x09, 0x0A, 0x0B, 0x0C, 0x0D, 0x20, 0x85, 0xA0]
      else (r = 0x1680 \<or> (0x2000 \<le> r \<and> r \<le> 0x200A)
            \<or> r \<in> set [0x2028, 0x2029, 0x202F, 0x205F, 0x3000]))"

text \<open>\<open>strings.TrimSpace\<close> removes the leading and the trailing white-space runes
  (its ASCII fast path computes the same slice as \<open>TrimFunc(s, unicode.IsSpace)\<close>).\<close>

function TrimLeftSpace :: "string \<Rightarrow> string" where
  "TrimLeftSpace s =
     (if s = [] then []
      else if IsSpace (fst (DecodeRuneInString s))
        then TrimLeftSpace (drop (snd (DecodeRuneInString s)) s)
      else s)"
  by pat_completeness auto
termination
  by (relation "measure length")
     (auto simp: DecodeRuneInString_def Let_def split: if_splits)

declare TrimLeftSpace.simps [simp del]

text \<open>From the right, with \<open>utf8.DecodeLastRuneInString\<close>. The width it returns is 0
  only on the empty string; the test \<open>0 < size\<close> keeps the termination argument local.\<close>

function TrimRightSpace :: "string \<Rightarrow> string" where
  "TrimRightSpace s =
     (if s = [] then []
      else if IsSpace (fst (DecodeLastRuneInString s)) \<and> 0 < snd (DecodeLastRuneInString s)
        then TrimRightSpace (take (length s - snd (DecodeLastRuneInString s)) s)
      else s)"
  by pat_completeness auto
termination
  by (relation "measure length") auto

declare TrimRightSpace.simps [simp del]

definition TrimSpace :: "string \<Rightarrow> string" where
  "TrimSpace s = TrimRightSpace (TrimLeftSpace s)"

text \<open>\<open>strings.ReplaceAll\<close> for a non-empty \<open>old\<close>: the non-overlapping occurrences,
  from the left.\<close>

function ReplaceAll :: "string \<Rightarrow> string \<Rightarrow> string \<Rightarrow> string" where
  "ReplaceAll s old new =
     (if s = [] \<or> old = [] then s
      else if take (length old) s = old
        then new @ ReplaceAll (drop (length old) s) old new
      else hd s # ReplaceAll (tl s) old new)"
  by pat_completeness auto
termination
  by (relation "measure (\<lambda>(s, old, new). length s)") auto

declare ReplaceAll.simps [simp del]

text \<open>\<open>strings.Split\<close> at a one-byte separator: one more piece than separators.\<close>

fun Split :: "string \<Rightarrow> char \<Rightarrow> string list" where
  "Split [] sep = [[]]"
| "Split (c # s) sep =
     (if c = sep then [] # Split s sep
      else (case Split s sep of [] \<Rightarrow> [[c]] | l # ls \<Rightarrow> (c # l) # ls))"

fun Join :: "string list \<Rightarrow> string \<Rightarrow> string" where
  "Join [] sep = []"
| "Join [x] sep = x"
| "Join (x # y # ys) sep = x @ sep @ Join (y # ys) sep"

section \<open>The fingerprinter (internal/hash/hash.go)\<close>

function normalizeUnicode :: "string \<Rightarrow> string" where
  "normalizeUnicode input =
     (if input = [] then []
      else
        let r = fst (DecodeRuneInString input); size = snd (DecodeRuneInString input) in
        (if IsControl r \<and> r \<noteq> 0x09 \<and> r \<noteq> 0x0A \<and> r \<noteq> 0x0D then [] else AppendRune r)
          @ normalizeUnicode (drop size input))"
  by pat_completeness auto
termination
  by (relation "measure length")
     (auto simp: DecodeRuneInString_def Let_def split: if_splits)

declare normalizeUnicode.simps [simp del]

definition normalizeWhitespace :: "string \<Rightarrow> string" where
  "normalizeWhitespace input =
     (let input1 = ReplaceAll input [CHR 0x0D, CHR 0x0A] [CHR 0x0A];
          input2 = ReplaceAll input1 [CHR 0x0D] [CHR 0x0A];
          lines = Split input2 (CHR 0x0A);
          normalizedLines = filter (\<lambda>trimmed. trimmed \<noteq> []) (map TrimSpace lines)
      in Join normalizedLines '' '')"

definition normalizeInput :: "string \<Rightarrow> string" where
  "normalizeInput input =
     (let input1 = TrimSpace input;
          input2 = normalizeUnicode input1;
          input3 = normalizeWhitespace input2
      in if length input3 > 10000 then take 10000 input3 else input3)"

text \<open>\<open>hex.EncodeToString\<close> over the 32 bytes of the digest. \<open>crypto/sha256\<close> is not
  code of the repository: the digest function \<open>sum256\<close> is a parameter, and its
  \<open>[32]byte\<close> result is a 256-bit word read big-endian.\<close>

definition hextable :: string where
  "hextable = ''0123456789abcdef''"

definition digestBytes :: "256 word \<Rightarrow> 8 word list" where
  "digestBytes h = map (\<lambda>i. ucast (drop_bit (8 * (31 - i)) h)) [0..<32]"

definition EncodeToString :: "8 word list \<Rightarrow> string" where
  "EncodeToString src =
     concat (map (\<lambda>v. [hextable ! unat (drop_bit 4 v), hextable ! unat (v AND 0x0F)]) src)"

definition preimage :: "string \<Rightarrow> string \<Rightarrow> string" where
  \<comment> \<open>\<open>fmt.Sprintf("%s|%s", normalizedInput, modelName)\<close>\<close>
  "preimage normalizedInput modelName = normalizedInput @ ''|'' @ modelName"

definition GenerateInputHash :: "(string \<Rightarrow> 256 word) \<Rightarrow> string \<Rightarrow> string \<Rightarrow> string" where
  "GenerateInputHash sum256 inputText modelName =
     (let normalizedInput = normalizeInput inputText;
          data = preimage normalizedInput modelName;
          hash = sum256 data
      in EncodeToString (digestBytes hash))"

section \<open>Data model (internal/database, internal/openai, internal/cache)\<close>

text \<open>
  A \<open>uuid\<close> and a timestamp are opaque values, modelled as natural numbers. A
  \<open>float64\<close> is its 64-bit pattern: the code stores, copies and returns embedding
  values and never computes with them. The text form in which a vector is written to
  the \<open>embedding_vector\<close> column and parsed back is outside the model: a row holds the
  vector itself. A nil slice and an empty slice are both \<open>[]\<close>.
\<close>

type_synonym uuid = nat
type_synonym timestamp = nat
type_synonym float64 = "64 word"
type_synonym vector = "float64 list"

record CachedEmbedding =
  ID :: uuid
  InputHash :: string
  InputText :: string
  EmbeddingVector :: vector
  ModelName :: string
  InputLength :: nat
  CreatedAt :: timestamp
  UpdatedAt :: timestamp
  UsedAt :: timestamp

record BatchItem =
  Input :: string
  Hash :: string
  Index :: nat
  Cached :: "CachedEmbedding option"

record TokenUsage =
  PromptTokens :: int
  TotalTokens :: int

text \<open>\<open>openai.EmbeddingResponse\<close>.\<close>

record AiResponse =
  AiEmbedding :: vector
  AiEmbeddings :: "vector list"
  AiModel :: string
  AiTokenUsage :: TokenUsage

text \<open>The dynamic value of \<open>EmbeddingRequest.Input\<close> (an \<open>interface{}\<close>): nil, a
  string, a \<open>[]interface{}\<close>, a \<open>[]string\<close>, or a value of any other type (a JSON
  number, boolean or object).\<close>

datatype iface = IfNil | IfString string | IfSlice "iface list" | IfStrings "string list" | IfOther

record EmbeddingRequest =
  ReqInput :: iface
  ReqModel :: string

text \<open>\<open>cache.EmbeddingResponse\<close>.\<close>

record EmbeddingResponse =
  Embedding :: vector
  Embeddings :: "vector list"
  Model :: string
  RespCached :: bool
  CachedItems :: "bool list"
  RespTokenUsage :: TokenUsage

record BatchResult =
  ResEmbedding :: vector
  ResCached :: bool
  ResIndex :: nat

text \<open>Errors of the provider client and of the orchestrator, one constructor per error
  the code builds.\<close>

text \<open>
  The error values the store code sees. \<open>PgxErrNoRows\<close> is \<open>pgx.ErrNoRows\<close>, the error of
  \<open>QueryRow(...).Scan\<close> on an empty result; \<open>SqlErrNoRows\<close> is \<open>sql.ErrNoRows\<close> of
  \<open>database/sql\<close>, another error value, which the driver does not return.
  \<open>UniqueViolation\<close> names the constraint of the table that a new row breaks. \<open>PgxFault\<close>
  stands for every other way a statement can fail in the backing store or in reading its
  result (the connection, the scan of a row, the parse of the stored vector, the
  iteration, a value a column refuses); whether a statement fails so is decided by the
  environment. A \<open>db_error\<close> is the error a function of the store returns: the driver's
  error, wrapped.
\<close>

datatype go_error = SqlErrNoRows | PgxErrNoRows | PgxFault | UniqueViolation string

datatype db_error =
    FailedToQueryCached go_error
  | FailedToQueryBatch go_error
  | FailedToStore go_error

datatype ai_error =
    InputTextEmpty
  | InputArrayEmpty
  | BatchSizeTooLarge
  | ContextErr
  | TransportErr string
  | NoEmbeddingData
  | EmptyVectorAt nat
  | AfterAttempts int "ai_error option"

datatype cache_error =
    ItemNotString nat
  | InvalidInputType
  | IndexOutOfRange
  | InputTextCannotBeEmpty
  | BatchInputCannotBeEmpty
  | BatchInputTooLarge
  | FailedToCheckCache db_error
  | FailedToCreateEmbedding ai_error
  | FailedToCreateEmbeddings ai_error
  | InputRequired
  | InputCannotBeEmpty
  | BatchItemTooLong nat
  | InputTextTooLong

text \<open>What the provider answers to one API call: a transport or API error, or a
  response with its data, its model and its usage.\<close>

datatype api_outcome = ApiFail string | ApiOk "vector list" string int int

text \<open>
  The collaborators outside the code are an environment \<open>env\<close>: the digest function,
  for the \<open>k\<close>-th database statement whether the backing store fails it and the values
  of \<open>NOW()\<close> and \<open>uuid_generate_v4()\<close> in it, for the \<open>k\<close>-th API call the provider's
  answer, and whether the request's context is done during the wait before the \<open>k\<close>-th
  API call. The \<open>world\<close> is the state the code acts on: the table \<open>embedding_cache\<close>,
  the number of database statements issued, the inputs of the API calls made, and the
  ids handed to the usage tracker.
\<close>

record env =
  sum256 :: "string \<Rightarrow> 256 word"
  dbFault :: "nat \<Rightarrow> bool"
  dbNow :: "nat \<Rightarrow> timestamp"
  dbUuid :: "nat \<Rightarrow> uuid"
  apiReply :: "nat \<Rightarrow> string \<Rightarrow> string list \<Rightarrow> api_outcome"
  ctxDone :: "nat \<Rightarrow> bool"

record world =
  embedding_cache :: "CachedEmbedding list"
  dbStmts :: nat
  apiCalls :: "string list list"
  tracked :: "uuid list"

text \<open>\<open>openai.Client\<close> and \<open>cache.Cache\<close>: the fields the code reads.\<close>

record Client =
  model :: string
  maxRetries :: int

record Cache =
  ai :: Client
  hasTracker :: bool

section \<open>The cache store (internal/database)\<close>

text \<open>\<open>db.pool.QueryRow(ctx, query, inputHash).Scan(...)\<close> of \<open>GetCachedEmbedding\<close>: the
  row with the hash, or the driver's error; without a row that error is
  \<open>pgx.ErrNoRows\<close>.\<close>

definition QueryRowScan ::
  "env \<Rightarrow> world \<Rightarrow> string \<Rightarrow> (go_error + CachedEmbedding) \<times> world" where
  "QueryRowScan e w inputHash =
     (let k = dbStmts w; w' = w\<lparr>dbStmts := k + 1\<rparr> in
      if dbFault e k then (Inl PgxFault, w')
      else (case find (\<lambda>r. InputHash r = inputHash) (embedding_cache w) of
              None \<Rightarrow> (Inl PgxErrNoRows, w')
            | Some embedding \<Rightarrow> (Inr embedding, w')))"

text \<open>\<open>GetCachedEmbedding\<close>. The test \<open>err == sql.ErrNoRows\<close> compares the driver's error
  with the error value of \<open>database/sql\<close>.\<close>

definition GetCachedEmbedding ::
  "env \<Rightarrow> world \<Rightarrow> string \<Rightarrow> (db_error + CachedEmbedding option) \<times> world" where
  "GetCachedEmbedding e w inputHash =
     (case QueryRowScan e w inputHash of
        (Inl err, w') \<Rightarrow>
          if err = SqlErrNoRows then (Inr None, w')
          else (Inl (FailedToQueryCached err), w')
      | (Inr embedding, w') \<Rightarrow> (Inr (Some embedding), w'))"

text \<open>
  \<open>GetBatchCachedEmbeddings\<close>. The slice holds pointers to the items that
  \<open>prepareBatchItems\<close> allocated, one object per position, so an item's address is its
  position in the list: \<open>hashToItem\<close> maps a hash to the position of the item stored
  last under it, and \<open>item.Cached = embedding\<close> updates the list at that position.
\<close>

fun buildHashToItem :: "BatchItem list \<Rightarrow> nat \<Rightarrow> (string \<rightharpoonup> nat) \<Rightarrow> (string \<rightharpoonup> nat)" where
  "buildHashToItem [] i m = m"
| "buildHashToItem (item # rest) i m = buildHashToItem rest (i + 1) (m(Hash item \<mapsto> i))"

definition attachCached ::
  "(string \<rightharpoonup> nat) \<Rightarrow> CachedEmbedding \<Rightarrow> BatchItem list \<Rightarrow> BatchItem list" where
  "attachCached hashToItem embedding batchItems =
     (case hashToItem (InputHash embedding) of
        None \<Rightarrow> batchItems
      | Some p \<Rightarrow> batchItems[p := (batchItems ! p)\<lparr>Cached := Some embedding\<rparr>])"

definition GetBatchCachedEmbeddings ::
  "env \<Rightarrow> world \<Rightarrow> BatchItem list \<Rightarrow> (db_error + BatchItem list) \<times> world" where
  "GetBatchCachedEmbeddings e w batchItems =
     (if batchItems = [] then (Inr batchItems, w)
      else
        let hashes = map Hash batchItems;
            hashToItem = buildHashToItem batchItems 0 Map.empty;
            k = dbStmts w;
            w' = w\<lparr>dbStmts := k + 1\<rparr>
        in if dbFault e k then (Inl (FailedToQueryBatch PgxFault), w')
           else
             let embeddings = filter (\<lambda>r. InputHash r \<in> set hashes) (embedding_cache w)
             in (Inr (fold (attachCached hashToItem) embeddings batchItems), w'))"

text \<open>The trigger function of the migration, run \<open>BEFORE UPDATE\<close> for each row:
  \<^verbatim>\<open>NEW.updated_at = NOW(); RETURN NEW;\<close>\<close>

definition update_updated_at_column :: "timestamp \<Rightarrow> CachedEmbedding \<Rightarrow> CachedEmbedding" where
  "update_updated_at_column now new = new\<lparr>UpdatedAt := now\<rparr>"

text \<open>
  The statement of \<open>StoreEmbedding\<close> on the table of the migration:
  \<^verbatim>\<open>INSERT ... VALUES ($1, $2, $3, $4, $5, NOW()) ON CONFLICT (input_hash) DO UPDATE SET
  embedding_vector = EXCLUDED.embedding_vector, updated_at = NOW(), used_at = NOW()\<close>.
  The table declares \<open>input_hash\<close> \<open>UNIQUE\<close> and \<open>id\<close> the primary key. A row with the
  proposed \<open>input_hash\<close> is the conflict the statement names: that row is updated, through
  the trigger, and nothing is inserted. Otherwise the new row takes its \<open>id\<close>,
  \<open>created_at\<close> and \<open>updated_at\<close> from the column defaults, and an \<open>id\<close> already in the table
  is a violation of the primary key, which the statement does not handle.
\<close>

definition upsert ::
  "timestamp \<Rightarrow> uuid \<Rightarrow> CachedEmbedding list \<Rightarrow> string \<Rightarrow> string \<Rightarrow> string \<Rightarrow> vector
     \<Rightarrow> go_error + CachedEmbedding list" where
  "upsert now newId rows inputHash inputText modelName embeddingVector =
     (if list_ex (\<lambda>r. InputHash r = inputHash) rows
      then Inr (map (\<lambda>r. if InputHash r = inputHash
                          then update_updated_at_column now
                                 (r\<lparr>EmbeddingVector := embeddingVector, UpdatedAt := now,
                                    UsedAt := now\<rparr>)
                          else r) rows)
      else if list_ex (\<lambda>r. ID r = newId) rows
        then Inl (UniqueViolation ''embedding_cache_pkey'')
      else Inr (rows @ [\<lparr>ID = newId, InputHash = inputHash, InputText = inputText,
                          EmbeddingVector = embeddingVector, ModelName = modelName,
                          InputLength = length inputText,
                          CreatedAt = now, UpdatedAt = now, UsedAt = now\<rparr>]))"

definition StoreEmbedding ::
  "env \<Rightarrow> world \<Rightarrow> string \<Rightarrow> string \<Rightarrow> string \<Rightarrow> vector \<Rightarrow> db_error option \<times> world" where
  "StoreEmbedding e w inputHash inputText modelName embeddingVector =
     (let k = dbStmts w; w' = w\<lparr>dbStmts := k + 1\<rparr> in
      if dbFault e k then (Some (FailedToStore PgxFault), w')
      else (case upsert (dbNow e k) (dbUuid e k) (embedding_cache w)
                   inputHash inputText modelName embeddingVector of
              Inl err \<Rightarrow> (Some (FailedToStore err), w')
            | Inr rows \<Rightarrow> (None, w'\<lparr>embedding_cache := rows\<rparr>)))"

section \<open>The provider client (internal/openai)\<close>

text \<open>The loop over \<open>response.Data\<close>: an empty vector at index \<open>i\<close> sets \<open>lastErr\<close>.\<close>

fun scanData :: "vector list \<Rightarrow> nat \<Rightarrow> ai_error option \<Rightarrow> ai_error option" where
  "scanData [] i lastErr = lastErr"
| "scanData (d # ds) i lastErr =
     scanData ds (i + 1) (if d = [] then Some (EmptyVectorAt i) else lastErr)"

definition usageOf :: "int \<Rightarrow> int \<Rightarrow> TokenUsage" where
  "usageOf promptTokens totalTokens =
     (if 0 < promptTokens then \<lparr>PromptTokens = promptTokens, TotalTokens = totalTokens\<rparr>
      else \<lparr>PromptTokens = 0, TotalTokens = 0\<rparr>)"

text \<open>The retry loop of \<open>CreateBatchEmbeddings\<close>, from \<open>attempt\<close> on, with the value of
  \<open>lastErr\<close> at that point.\<close>

function retryLoop ::
  "env \<Rightarrow> Client \<Rightarrow> string list \<Rightarrow> int \<Rightarrow> ai_error option \<Rightarrow> world
     \<Rightarrow> (ai_error + AiResponse) \<times> world" where
  "retryLoop e c inputs attempt lastErr w =
     (if attempt \<le> maxRetries c then
        (if 0 < attempt \<and> ctxDone e (length (apiCalls w)) then (Inl ContextErr, w)
         else
           (case apiReply e (length (apiCalls w)) (model c) inputs of
              ApiFail err \<Rightarrow>
                retryLoop e c inputs (attempt + 1) (Some (TransportErr err))
                  (w\<lparr>apiCalls := apiCalls w @ [inputs]\<rparr>)
            | ApiOk data respModel promptTokens totalTokens \<Rightarrow>
                if data = [] then
                  retryLoop e c inputs (attempt + 1) (Some NoEmbeddingData)
                    (w\<lparr>apiCalls := apiCalls w @ [inputs]\<rparr>)
                else if scanData data 0 lastErr \<noteq> None then
                  retryLoop e c inputs (attempt + 1) (scanData data 0 lastErr)
                    (w\<lparr>apiCalls := apiCalls w @ [inputs]\<rparr>)
                else
                  (Inr \<lparr>AiEmbedding = [], AiEmbeddings = data, AiModel = respModel,
                        AiTokenUsage = usageOf promptTokens totalTokens\<rparr>,
                   w\<lparr>apiCalls := apiCalls w @ [inputs]\<rparr>)))
      else (Inl (AfterAttempts (maxRetries c + 1) lastErr), w))"
  by pat_completeness auto
termination
  by (relation "measure (\<lambda>(e, c, inputs, attempt, lastErr, w). nat (maxRetries c + 1 - attempt))")
     auto

declare retryLoop.simps [simp del]

definition CreateBatchEmbeddings ::
  "env \<Rightarrow> Client \<Rightarrow> world \<Rightarrow> string list \<Rightarrow> (ai_error + AiResponse) \<times> world" where
  "CreateBatchEmbeddings e c w inputs =
     (if inputs = [] then (Inl InputArrayEmpty, w)
      else if 1000 < length inputs then (Inl BatchSizeTooLarge, w)
      else retryLoop e c inputs 0 None w)"

definition CreateEmbedding ::
  "env \<Rightarrow> Client \<Rightarrow> world \<Rightarrow> string \<Rightarrow> (ai_error + AiResponse) \<times> world" where
  "CreateEmbedding e c w input =
     (if input = [] then (Inl InputTextEmpty, w)
      else
        (case CreateBatchEmbeddings e c w [input] of
           (Inl err, w') \<Rightarrow> (Inl err, w')
         | (Inr responses, w') \<Rightarrow>
             (case AiEmbeddings responses of
                [] \<Rightarrow> (Inl NoEmbeddingData, w')
              | v # vs \<Rightarrow>
                  (Inr \<lparr>AiEmbedding = v, AiEmbeddings = [], AiModel = AiModel responses,
                        AiTokenUsage = AiTokenUsage responses\<rparr>, w'))))"

section \<open>The cache orchestrator (internal/cache)\<close>

definition isBatchInput :: "iface \<Rightarrow> bool" where
  "isBatchInput input =
     (case input of
        IfString v \<Rightarrow> False
      | IfSlice v \<Rightarrow> True
      | IfStrings v \<Rightarrow> True
      | _ \<Rightarrow> False)"

text \<open>The loop of \<open>normalizeInput\<close> over a \<open>[]interface{}\<close>, from index \<open>i\<close> on: it
  returns at the first element that is not a string.\<close>

fun stringsFrom :: "iface list \<Rightarrow> nat \<Rightarrow> cache_error + string list" where
  "stringsFrom [] i = Inr []"
| "stringsFrom (IfString str # rest) i =
     (case stringsFrom rest (i + 1) of Inl err \<Rightarrow> Inl err | Inr result \<Rightarrow> Inr (str # result))"
| "stringsFrom (item # rest) i = Inl (ItemNotString i)"

definition normalizeInput_cache :: "iface \<Rightarrow> cache_error + string list" where
  "normalizeInput_cache input =
     (case input of
        IfString v \<Rightarrow> Inr [v]
      | IfSlice v \<Rightarrow> stringsFrom v 0
      | IfStrings v \<Rightarrow> Inr v
      | _ \<Rightarrow> Inl InvalidInputType)"

text \<open>\<open>if c.tracker != nil { c.tracker.TrackUsage(id) }\<close>: the id is handed to the
  tracker (which enqueues or drops it).\<close>

definition trackHit :: "Cache \<Rightarrow> world \<Rightarrow> uuid \<Rightarrow> world" where
  "trackHit c w uid = (if hasTracker c then w\<lparr>tracked := tracked w @ [uid]\<rparr> else w)"

definition modelNameOf :: "Cache \<Rightarrow> EmbeddingRequest \<Rightarrow> string" where
  "modelNameOf c req = (if ReqModel req = [] then model (ai c) else ReqModel req)"

definition noUsage :: TokenUsage where
  "noUsage = \<lparr>PromptTokens = 0, TotalTokens = 0\<rparr>"

definition processSingleRequest ::
  "env \<Rightarrow> Cache \<Rightarrow> world \<Rightarrow> EmbeddingRequest \<Rightarrow> (cache_error + EmbeddingResponse) \<times> world" where
  "processSingleRequest e c w req =
     (case normalizeInput_cache (ReqInput req) of
        Inl err \<Rightarrow> (Inl err, w)
      | Inr inputs \<Rightarrow>
          (case inputs of
             [] \<Rightarrow> (Inl IndexOutOfRange, w)
           | input # others \<Rightarrow>
               if input = [] then (Inl InputTextCannotBeEmpty, w)
               else
                 let modelName = modelNameOf c req;
                     inputHash = GenerateInputHash (sum256 e) input modelName
                 in (case GetCachedEmbedding e w inputHash of
                       (Inl err, w1) \<Rightarrow> (Inl (FailedToCheckCache err), w1)
                     | (Inr (Some cached), w1) \<Rightarrow>
                         (Inr \<lparr>Embedding = EmbeddingVector cached, Embeddings = [],
                               Model = ModelName cached, RespCached = True, CachedItems = [],
                               RespTokenUsage = noUsage\<rparr>,
                          trackHit c w1 (ID cached))
                     | (Inr None, w1) \<Rightarrow>
                         (case CreateEmbedding e (ai c) w1 input of
                            (Inl err, w2) \<Rightarrow> (Inl (FailedToCreateEmbedding err), w2)
                          | (Inr aiResponse, w2) \<Rightarrow>
                              (Inr \<lparr>Embedding = AiEmbedding aiResponse, Embeddings = [],
                                    Model = AiModel aiResponse, RespCached = False,
                                    CachedItems = [],
                                    RespTokenUsage = AiTokenUsage aiResponse\<rparr>,
                               snd (StoreEmbedding e w2 inputHash input modelName
                                      (AiEmbedding aiResponse)))))))"

definition prepareBatchItems :: "env \<Rightarrow> string list \<Rightarrow> string \<Rightarrow> BatchItem list" where
  "prepareBatchItems e inputs modelName =
     map (\<lambda>(i, input). \<lparr>Input = input, Hash = GenerateInputHash (sum256 e) input modelName,
                          Index = i, Cached = None\<rparr>)
       (enumerate 0 inputs)"

text \<open>The loop of \<open>processBatchRequest\<close> that counts hits and misses and tracks the
  usage of every hit.\<close>

fun trackHits :: "Cache \<Rightarrow> world \<Rightarrow> BatchItem list \<Rightarrow> world" where
  "trackHits c w [] = w"
| "trackHits c w (item # rest) =
     (case Cached item of
        Some cached \<Rightarrow> trackHits c (trackHit c w (ID cached)) rest
      | None \<Rightarrow> trackHits c w rest)"

definition getUncachedItems :: "BatchItem list \<Rightarrow> BatchItem list" where
  "getUncachedItems batchItems = filter (\<lambda>item. Cached item = None) batchItems"

definition createBatchEmbeddings ::
  "env \<Rightarrow> Cache \<Rightarrow> world \<Rightarrow> BatchItem list \<Rightarrow> string \<Rightarrow> (ai_error + AiResponse) \<times> world" where
  "createBatchEmbeddings e c w uncachedItems modelName =
     CreateBatchEmbeddings e (ai c) w (map Input uncachedItems)"

text \<open>\<open>storeBatchEmbeddings\<close>, from index \<open>i\<close> on: a failed write is logged and the
  loop goes on; the function returns nil.\<close>

fun storeBatchEmbeddings ::
  "env \<Rightarrow> world \<Rightarrow> BatchItem list \<Rightarrow> nat \<Rightarrow> AiResponse \<Rightarrow> string \<Rightarrow> world" where
  "storeBatchEmbeddings e w [] i aiResponse modelName = w"
| "storeBatchEmbeddings e w (item # rest) i aiResponse modelName =
     (if i < length (AiEmbeddings aiResponse)
      then storeBatchEmbeddings e
             (snd (StoreEmbedding e w (Hash item) (Input item) modelName
                     (AiEmbeddings aiResponse ! i)))
             rest (i + 1) aiResponse modelName
      else storeBatchEmbeddings e w rest (i + 1) aiResponse modelName)"

text \<open>
  \<open>assembleBatchResults\<close>: \<open>results\<close> is a slice of \<open>originalSize\<close> nil pointers; the
  first loop places the hits, the second the computed vectors. \<open>results[item.Index]\<close>
  is a list update: the items come from \<open>prepareBatchItems\<close>, whose indices are the
  positions below \<open>originalSize\<close>. \<open>aiResponse\<close> is the pointer that stays nil when no
  provider call was made; it is read only inside the loop over the uncached items.
\<close>

fun placeCached :: "BatchItem list \<Rightarrow> BatchResult option list \<Rightarrow> BatchResult option list" where
  "placeCached [] results = results"
| "placeCached (item # rest) results =
     placeCached rest
       (case Cached item of
          Some cached \<Rightarrow>
            results[Index item := Some \<lparr>ResEmbedding = EmbeddingVector cached, ResCached = True,
                                         ResIndex = Index item\<rparr>]
        | None \<Rightarrow> results)"

fun placeComputed ::
  "BatchItem list \<Rightarrow> nat \<Rightarrow> vector list \<Rightarrow> BatchResult option list \<Rightarrow> BatchResult option list" where
  "placeComputed [] i embeddings results = results"
| "placeComputed (item # rest) i embeddings results =
     placeComputed rest (i + 1) embeddings
       (if i < length embeddings
        then results[Index item := Some \<lparr>ResEmbedding = embeddings ! i, ResCached = False,
                                          ResIndex = Index item\<rparr>]
        else results)"

definition assembleBatchResults ::
  "BatchItem list \<Rightarrow> BatchItem list \<Rightarrow> AiResponse option \<Rightarrow> nat \<Rightarrow> BatchResult option list" where
  "assembleBatchResults batchItems uncachedItems aiResponse originalSize =
     placeComputed uncachedItems 0
       (case aiResponse of None \<Rightarrow> [] | Some r \<Rightarrow> AiEmbeddings r)
       (placeCached batchItems (replicate originalSize None))"

definition extractEmbeddings :: "BatchResult option list \<Rightarrow> vector list" where
  "extractEmbeddings results =
     map (\<lambda>result. case result of None \<Rightarrow> [] | Some r \<Rightarrow> ResEmbedding r) results"

definition extractCachedFlags :: "BatchResult option list \<Rightarrow> bool list" where
  "extractCachedFlags results =
     map (\<lambda>result. case result of None \<Rightarrow> False | Some r \<Rightarrow> ResCached r) results"

text \<open>The part of \<open>processBatchRequest\<close> under \<open>if len(uncachedItems) > 0\<close>: one call of
  the provider client for the misses, then the write-through.\<close>

definition resolveUncached ::
  "env \<Rightarrow> Cache \<Rightarrow> world \<Rightarrow> BatchItem list \<Rightarrow> string
     \<Rightarrow> (ai_error + AiResponse option) \<times> world" where
  "resolveUncached e c w uncachedItems modelName =
     (if uncachedItems \<noteq> [] then
        (case createBatchEmbeddings e c w uncachedItems modelName of
           (Inl err, w') \<Rightarrow> (Inl err, w')
         | (Inr aiResponse, w') \<Rightarrow>
             (Inr (Some aiResponse),
              storeBatchEmbeddings e w' uncachedItems 0 aiResponse modelName))
      else (Inr None, w))"

definition processBatchRequest ::
  "env \<Rightarrow> Cache \<Rightarrow> world \<Rightarrow> EmbeddingRequest \<Rightarrow> (cache_error + EmbeddingResponse) \<times> world" where
  "processBatchRequest e c w req =
     (case normalizeInput_cache (ReqInput req) of
        Inl err \<Rightarrow> (Inl err, w)
      | Inr inputs \<Rightarrow>
          if inputs = [] then (Inl BatchInputCannotBeEmpty, w)
          else if 1000 < length inputs then (Inl BatchInputTooLarge, w)
          else
            let modelName = modelNameOf c req in
            (case GetBatchCachedEmbeddings e w (prepareBatchItems e inputs modelName) of
               (Inl err, w1) \<Rightarrow> (Inl (FailedToCheckCache err), w1)
             | (Inr batchItems, w1) \<Rightarrow>
                 let w2 = trackHits c w1 batchItems;
                     uncachedItems = getUncachedItems batchItems
                 in (case resolveUncached e c w2 uncachedItems modelName of
                       (Inl err, w3) \<Rightarrow> (Inl (FailedToCreateEmbeddings err), w3)
                     | (Inr aiResponse, w3) \<Rightarrow>
                         let results = assembleBatchResults batchItems uncachedItems aiResponse
                                         (length inputs)
                         in (Inr \<lparr>Embedding = [], Embeddings = extractEmbeddings results,
                                   Model = modelName, RespCached = False,
                                   CachedItems = extractCachedFlags results,
                                   RespTokenUsage = noUsage\<rparr>, w3))))"


text \<open>The loop of \<open>ValidateRequest\<close> over the items of a batch, from index \<open>i\<close> on: the
  index of the first item longer than 10000 bytes.\<close>

fun firstTooLong :: "string list \<Rightarrow> nat \<Rightarrow> nat option" where
  "firstTooLong [] i = None"
| "firstTooLong (input # rest) i =
     (if 10000 < length input then Some i else firstTooLong rest (i + 1))"

definition ValidateRequest :: "Cache \<Rightarrow> EmbeddingRequest \<Rightarrow> cache_error option" where
  "ValidateRequest c req =
     (if ReqInput req = IfNil then Some InputRequired
      else
        (case normalizeInput_cache (ReqInput req) of
           Inl err \<Rightarrow> Some err
         | Inr inputs \<Rightarrow>
             if inputs = [] then Some InputCannotBeEmpty
             else if isBatchInput (ReqInput req) then
               (if 1000 < length inputs then Some BatchInputTooLarge
                else (case firstTooLong inputs 0 of
                        Some i \<Rightarrow> Some (BatchItemTooLong i)
                      | None \<Rightarrow> None))
             else (if 10000 < length (hd inputs) then Some InputTextTooLong else None)))"

section \<open>The request handler (internal/server)\<close>



section \<open>The usage tracker (internal/tracker)\<close>

text \<open>
  The tracker is a transition system. Its state holds the buffered channel
  \<open>usageChan\<close> (capacity 1000) and whether it is closed, whether \<open>stopChan\<close> is closed,
  whether the context is done, the buffer, the batches handed to
  \<open>updateUsageTimestamps\<close> so far, which of the two goroutines are still running, and
  whether \<open>Stop\<close> has returned. An event is one step of one party: a call of
  \<open>TrackUsage\<close>, the branch a goroutine's \<open>select\<close> takes (Go chooses among the ready
  cases of a \<open>select\<close>), a tick, the cancellation of the context, the two \<open>close\<close> calls
  of \<open>Stop\<close>, and the return of \<open>Stop\<close> after \<open>wg.Wait()\<close> and the final flush.
  \<open>step\<close> is \<open>None\<close> where the event cannot happen in the state. The receive, the append
  and the flush it may trigger are one step of the ingest goroutine.
\<close>

record tracker =
  usageChan :: "uuid list"
  chanClosed :: bool
  stopClosed :: bool
  ctxCancelled :: bool
  buffer :: "uuid list"
  flushed :: "uuid list list"
  ingestRunning :: bool
  timerRunning :: bool
  stopReturned :: bool
  batchSize :: nat

datatype event =
    Track uuid
  | IngestRecv
  | IngestStop
  | IngestCtx
  | TimerTick
  | TimerStop
  | TimerCtx
  | CtxCancel
  | StopCall
  | StopReturn

text \<open>\<open>New\<close> followed by \<open>Start\<close>.\<close>

definition newTracker :: "nat \<Rightarrow> tracker" where
  "newTracker n =
     \<lparr>usageChan = [], chanClosed = False, stopClosed = False, ctxCancelled = False,
      buffer = [], flushed = [], ingestRunning = True, timerRunning = True,
      stopReturned = False, batchSize = n\<rparr>"

definition flushBuffer :: "tracker \<Rightarrow> tracker" where
  "flushBuffer t =
     (if buffer t = [] then t
      else t\<lparr>buffer := [], flushed := flushed t @ [buffer t]\<rparr>)"

fun step :: "event \<Rightarrow> tracker \<Rightarrow> tracker option" where
  "step (Track uid) t =
     (if chanClosed t then None
      else if length (usageChan t) < 1000 then Some (t\<lparr>usageChan := usageChan t @ [uid]\<rparr>)
      else Some t)"
| "step IngestRecv t =
     (if \<not> ingestRunning t then None
      else (case usageChan t of
              [] \<Rightarrow> (if chanClosed t then Some (t\<lparr>ingestRunning := False\<rparr>) else None)
            | uid # rest \<Rightarrow>
                let t' = t\<lparr>usageChan := rest, buffer := buffer t @ [uid]\<rparr>
                in Some (if batchSize t' \<le> length (buffer t') then flushBuffer t' else t')))"
| "step IngestStop t =
     (if ingestRunning t \<and> stopClosed t then Some (t\<lparr>ingestRunning := False\<rparr>) else None)"
| "step IngestCtx t =
     (if ingestRunning t \<and> ctxCancelled t then Some (t\<lparr>ingestRunning := False\<rparr>) else None)"
| "step TimerTick t = (if timerRunning t then Some (flushBuffer t) else None)"
| "step TimerStop t =
     (if timerRunning t \<and> stopClosed t then Some (t\<lparr>timerRunning := False\<rparr>) else None)"
| "step TimerCtx t =
     (if timerRunning t \<and> ctxCancelled t then Some (t\<lparr>timerRunning := False\<rparr>) else None)"
| "step CtxCancel t = Some (t\<lparr>ctxCancelled := True\<rparr>)"
| "step StopCall t =
     (if stopClosed t then None else Some (t\<lparr>stopClosed := True, chanClosed := True\<rparr>))"
| "step StopReturn t =
     (if stopClosed t \<and> \<not> ingestRunning t \<and> \<not> timerRunning t \<and> \<not> stopReturned t
      then Some ((flushBuffer t)\<lparr>stopReturned := True\<rparr>)
      else None)"

fun run :: "event list \<Rightarrow> tracker \<Rightarrow> tracker option" where
  "run [] t = Some t"
| "run (ev # evs) t = (case step ev t of None \<Rightarrow> None | Some t' \<Rightarrow> run evs t')"

section \<open>Terms of the claims and example values\<close>



text \<open>The items of a request's input as dynamic values, whether an item is a string,
  and an item's length under a given measure.\<close>

definition itemsOf :: "iface \<Rightarrow> iface list" where
  "itemsOf input =
     (case input of
        IfString v \<Rightarrow> [IfString v]
      | IfSlice v \<Rightarrow> v
      | IfStrings v \<Rightarrow> map IfString v
      | _ \<Rightarrow> [])"

definition isStringItem :: "iface \<Rightarrow> bool" where
  "isStringItem x = (case x of IfString s \<Rightarrow> True | _ \<Rightarrow> False)"

definition itemLen :: "(string \<Rightarrow> nat) \<Rightarrow> iface \<Rightarrow> nat" where
  "itemLen len x = (case x of IfString s \<Rightarrow> len s | _ \<Rightarrow> 0)"



text \<open>An environment that never fails (the digest of a string is its length, the
  provider answers each input with one vector and reports a usage of 3 tokens), a cache
  with a tracker, and a table holding one row for the text \<open>"a"\<close> under the model
  \<open>"m"\<close>.\<close>

definition exampleEnv :: env where
  "exampleEnv =
     \<lparr>sum256 = (\<lambda>s. of_nat (length s)), dbFault = (\<lambda>k. False), dbNow = (\<lambda>k. 100 + k),
      dbUuid = (\<lambda>k. 500 + k),
      apiReply = (\<lambda>k m inputs. ApiOk (map (\<lambda>s. [of_nat (length s) + 1]) inputs) m 3 3),
      ctxDone = (\<lambda>k. False)\<rparr>"

definition exampleCache :: Cache where
  "exampleCache = \<lparr>ai = \<lparr>model = ''m'', maxRetries = 3\<rparr>, hasTracker = True\<rparr>"

definition exampleRow :: CachedEmbedding where
  "exampleRow =
     \<lparr>ID = 1, InputHash = GenerateInputHash (\<lambda>s. of_nat (length s)) ''a'' ''m'',
      InputText = ''a'', EmbeddingVector = [7], ModelName = ''m'', InputLength = 1,
      CreatedAt = 10, UpdatedAt = 10, UsedAt = 10\<rparr>"

definition exampleWorld :: world where
  "exampleWorld = \<lparr>embedding_cache = [exampleRow], dbStmts = 0, apiCalls = [], tracked = []\<rparr>"


section \<open>Properties of the fingerprinter\<close>









lemma split_at_fresh:
  "x \<notin> set a \<Longrightarrow> x \<notin> set b \<Longrightarrow> a @ x # c = b @ x # d \<Longrightarrow> a = b \<and> c = d"
proof (induction a arbitrary: b)
  case Nil
  then show ?case by (cases b) auto
next
  case (Cons y a)
  then show ?case by (cases b) auto
qed

lemma split_at_last_separator:
  assumes "CHR ''|'' \<notin> set m1" and "CHR ''|'' \<notin> set m2"
    and e: "n1 @ CHR ''|'' # m1 = n2 @ CHR ''|'' # m2"
  shows "n1 = n2 \<and> m1 = m2"
proof -
  from e have "rev (n1 @ CHR ''|'' # m1) = rev (n2 @ CHR ''|'' # m2)" by simp
  then have "rev m1 @ CHR ''|'' # rev n1 = rev m2 @ CHR ''|'' # rev n2" by simp
  with assms(1,2) have "rev m1 = rev m2 \<and> rev n1 = rev n2"
    by (intro split_at_fresh [of "CHR ''|''"]) simp_all
  then show ?thesis by simp
qed

text \<open>
  C6, as amended. The string fed to the digest determines the normalized text and the
  model name whenever the model names do not contain the separator \<open>|\<close>: the last \<open>|\<close>
  of the string is then the separator. The normalized text itself may contain \<open>|\<close>.
\<close>

theorem preimage_injective_models:
  "CHR ''|'' \<notin> set m1 \<Longrightarrow> CHR ''|'' \<notin> set m2 \<Longrightarrow> preimage n1 m1 = preimage n2 m2
     \<Longrightarrow> n1 = n2 \<and> m1 = m2"
  using split_at_last_separator [of m1 m2 n1 n2] by (simp add: preimage_def)

theorem preimage_injective_models_witness:
  "CHR ''|'' \<notin> set ''m'' \<and> preimage ''a|b'' ''m'' = preimage ''a|b'' ''m'' \<and> ''a|b'' = ''a|b''"
  using preimage_injective_models [of "''m''" "''m''" "''a|b''" "''a|b''"] by simp

text \<open>
  C6 as stated fails: \<open>"a|b"\<close> is its own normal form, so the separator occurs in
  normalized text, and the text \<open>"a|b"\<close> under the model \<open>"c"\<close> gives the same string as
  the text \<open>"a"\<close> under the model \<open>"b|c"\<close>.
\<close>

theorem preimage_counterexample:
  "preimage (normalizeInput ''a|b'') ''c'' = preimage (normalizeInput ''a'') ''b|c''
   \<and> normalizeInput ''a|b'' \<noteq> normalizeInput ''a''
   \<and> CHR ''|'' \<in> set (normalizeInput ''a|b'')"
  by code_simp

section \<open>Properties of request validation\<close>

lemma stringsFrom_Inl:
  "(\<exists>err. stringsFrom v i = Inl err) = list_ex (\<lambda>x. \<not> isStringItem x) v"
proof (induction v i rule: stringsFrom.induct)
  case (1 i)
  then show ?case by simp
next
  case (2 str rest i)
  then show ?case by (cases "stringsFrom rest (i + 1)") (auto simp: isStringItem_def)
qed (simp_all add: isStringItem_def)

lemma stringsFrom_Inr:
  "stringsFrom v i = Inr strs \<Longrightarrow> v = map IfString strs"
proof (induction v i arbitrary: strs rule: stringsFrom.induct)
  case (1 i)
  then show ?case by simp
next
  case (2 str rest i)
  then show ?case by (cases "stringsFrom rest (i + 1)") auto
qed simp_all

lemma firstTooLong_None:
  "(firstTooLong xs i = None) = (\<not> list_ex (\<lambda>s. 10000 < length s) xs)"
  by (induction xs arbitrary: i) auto

lemma firstTooLong_Some:
  "firstTooLong xs i = Some k \<Longrightarrow> list_ex (\<lambda>s. 10000 < length s) xs"
  using firstTooLong_None [of xs i] by auto

lemma list_ex_map_IfString_nonstring: "\<not> list_ex (\<lambda>x. \<not> isStringItem x) (map IfString strs)"
  by (induction strs) (simp_all add: isStringItem_def)

lemma list_ex_map_IfString_len:
  "list_ex (\<lambda>x. n < itemLen len x) (map IfString strs) = list_ex (\<lambda>s. n < len s) strs"
  by (induction strs) (simp_all add: itemLen_def)

text \<open>Validation fails exactly under the listed conditions, lengths counted in bytes.\<close>

lemma ValidateRequest_iff:
  "(ValidateRequest c req \<noteq> None) =
     (ReqInput req = IfNil
      \<or> ReqInput req = IfOther
      \<or> list_ex (\<lambda>x. \<not> isStringItem x) (itemsOf (ReqInput req))
      \<or> (isBatchInput (ReqInput req) \<and> itemsOf (ReqInput req) = [])
      \<or> 1000 < length (itemsOf (ReqInput req))
      \<or> list_ex (\<lambda>x. 10000 < itemLen length x) (itemsOf (ReqInput req)))"
proof (cases "ReqInput req")
  case IfNil
  then show ?thesis by (simp add: ValidateRequest_def)
next
  case (IfString v)
  then show ?thesis
    by (simp add: ValidateRequest_def normalizeInput_cache_def isBatchInput_def itemsOf_def
          isStringItem_def itemLen_def)
next
  case (IfSlice v)
  show ?thesis
  proof (cases "stringsFrom v 0")
    case (Inl err)
    then have "list_ex (\<lambda>x. \<not> isStringItem x) v" using stringsFrom_Inl [of v 0] by auto
    with IfSlice Inl show ?thesis
      by (simp add: ValidateRequest_def normalizeInput_cache_def itemsOf_def)
  next
    case (Inr strs)
    then have v: "v = map IfString strs" by (rule stringsFrom_Inr)
    with IfSlice Inr show ?thesis
      by (auto simp: ValidateRequest_def normalizeInput_cache_def isBatchInput_def itemsOf_def
            list_ex_map_IfString_nonstring list_ex_map_IfString_len firstTooLong_None
            split: option.splits dest: firstTooLong_Some)
  qed
next
  case (IfStrings v)
  then show ?thesis
    by (auto simp: ValidateRequest_def normalizeInput_cache_def isBatchInput_def itemsOf_def
          list_ex_map_IfString_nonstring list_ex_map_IfString_len firstTooLong_None
          split: option.splits dest: firstTooLong_Some)
next
  case IfOther
  then show ?thesis by (simp add: ValidateRequest_def normalizeInput_cache_def)
qed


























section \<open>Properties of the cache store\<close>

lemma filter_unique_hash:
  "distinct (map InputHash rows) \<Longrightarrow> r \<in> set rows
     \<Longrightarrow> filter (\<lambda>x. InputHash x = InputHash r) rows = [r]"
proof (induction rows)
  case Nil
  then show ?case by simp
next
  case (Cons x rows)
  show ?case
  proof (cases "x = r")
    case True
    with Cons.prems have "InputHash r \<notin> InputHash ` set rows" by simp
    then have "\<forall>y\<in>set rows. InputHash y \<noteq> InputHash r" by (metis imageI)
    then have "filter (\<lambda>x. InputHash x = InputHash r) rows = []" by (simp add: filter_empty_conv)
    with True show ?thesis by simp
  next
    case False
    with Cons.prems have r: "r \<in> set rows" and d: "distinct (map InputHash rows)" by auto
    from Cons.prems r have "InputHash x \<noteq> InputHash r" by force
    with Cons.IH [OF d r] show ?thesis by simp
  qed
qed

lemma upsert_hit:
  "r \<in> set rows \<Longrightarrow> InputHash r = f \<Longrightarrow>
     upsert now newId rows f inputText modelName v
       = Inr (map (\<lambda>x. if InputHash x = f
                         then x\<lparr>EmbeddingVector := v, UpdatedAt := now, UsedAt := now\<rparr> else x) rows)"
  by (auto simp: upsert_def update_updated_at_column_def list_ex_iff)

text \<open>Without a row for the fingerprint the statement inserts, and an \<open>id\<close> that is
  already in the table makes it fail: a key collision is an error where the statement
  does not name it.\<close>

lemma upsert_id_collision:
  "\<not> list_ex (\<lambda>r. InputHash r = f) rows \<Longrightarrow> list_ex (\<lambda>r. ID r = newId) rows \<Longrightarrow>
     upsert now newId rows f inputText modelName v = Inl (UniqueViolation ''embedding_cache_pkey'')"
  by (simp add: upsert_def)

lemma refreshed_entry:
  assumes "distinct (map InputHash rows)" and "r \<in> set rows" and "InputHash r = f"
  shows "filter (\<lambda>x. InputHash x = f)
           (map (\<lambda>x. if InputHash x = f
                       then x\<lparr>EmbeddingVector := v, UpdatedAt := now, UsedAt := now\<rparr> else x) rows)
           = [r\<lparr>EmbeddingVector := v, UpdatedAt := now, UsedAt := now\<rparr>]"
proof -
  let ?g = "\<lambda>x. if InputHash x = f
                  then x\<lparr>EmbeddingVector := v, UpdatedAt := now, UsedAt := now\<rparr> else x"
  have "filter (\<lambda>x. InputHash x = f) (map ?g rows) = map ?g (filter (\<lambda>x. InputHash x = f) rows)"
    by (induction rows) simp_all
  also have "filter (\<lambda>x. InputHash x = f) rows = [r]"
    using filter_unique_hash [OF assms(1,2)] assms(3) by simp
  finally show ?thesis using assms by simp
qed

lemma refreshed_frame:
  "filter (\<lambda>x. InputHash x \<noteq> f)
     (map (\<lambda>x. if InputHash x = f
                 then x\<lparr>EmbeddingVector := v, UpdatedAt := now, UsedAt := now\<rparr> else x) rows)
     = filter (\<lambda>x. InputHash x \<noteq> f) rows"
  by (induction rows) simp_all

lemma refreshed_hashes:
  "map InputHash
     (map (\<lambda>x. if InputHash x = f
                 then x\<lparr>EmbeddingVector := v, UpdatedAt := now, UsedAt := now\<rparr> else x) rows)
     = map InputHash rows"
  by (induction rows) simp_all

text \<open>A \<open>StoreEmbedding\<close> for a fingerprint the table holds, when the environment does not
  fail the statement: the conflict branch of the statement decides, and it has no error.\<close>

lemma StoreEmbedding_hit:
  assumes "\<not> dbFault e (dbStmts w)" and "r \<in> set (embedding_cache w)" and "InputHash r = f"
  shows "StoreEmbedding e w f inputText modelName v
       = (None, w\<lparr>dbStmts := dbStmts w + 1,
                   embedding_cache :=
                     map (\<lambda>x. if InputHash x = f
                                then x\<lparr>EmbeddingVector := v, UpdatedAt := dbNow e (dbStmts w),
                                       UsedAt := dbNow e (dbStmts w)\<rparr>
                                else x) (embedding_cache w)\<rparr>)"
proof -
  have "upsert (dbNow e (dbStmts w)) (dbUuid e (dbStmts w)) (embedding_cache w) f inputText
          modelName v
        = Inr (map (\<lambda>x. if InputHash x = f
                          then x\<lparr>EmbeddingVector := v, UpdatedAt := dbNow e (dbStmts w),
                                 UsedAt := dbNow e (dbStmts w)\<rparr>
                          else x) (embedding_cache w))"
    using assms(2,3) by (rule upsert_hit)
  with assms(1) show ?thesis by (simp add: StoreEmbedding_def Let_def)
qed

text \<open>
  C7. On a table whose fingerprints are unique and which holds an entry \<open>r\<close> for the
  fingerprint \<open>f\<close>, a \<open>StoreEmbedding\<close> of \<open>f\<close> that the environment does not fail returns
  no error: the row for \<open>f\<close> is the conflict that the statement handles by an update, so
  no key is violated, whatever the new \<open>id\<close> would have been. Afterwards the entries for
  \<open>f\<close> are exactly \<open>r\<close> with the new vector and with \<open>updated_at\<close> and \<open>used_at\<close> set to the
  statement's \<open>NOW()\<close> (so id, fingerprint, text, model name, input length and
  \<open>created_at\<close> are those of \<open>r\<close>, whatever text and model the call passes), and the other
  entries are untouched. A second such call succeeds as well and leaves exactly \<open>r\<close> with
  the second vector; and when the clock of the store is strictly increasing from one
  statement to the next, the \<open>updated_at\<close> of the entry after the second call is later
  than its \<open>updated_at\<close> after the first.
\<close>

theorem upsert_on_collision:
  assumes u: "distinct (map InputHash (embedding_cache w))"
    and r: "r \<in> set (embedding_cache w)" and f: "InputHash r = f"
    and ok: "\<not> dbFault e (dbStmts w)"
  shows
    "fst (StoreEmbedding e w f text1 model1 v1) = None
     \<and> filter (\<lambda>x. InputHash x = f)
          (embedding_cache (snd (StoreEmbedding e w f text1 model1 v1)))
         = [r\<lparr>EmbeddingVector := v1, UpdatedAt := dbNow e (dbStmts w),
               UsedAt := dbNow e (dbStmts w)\<rparr>]
     \<and> filter (\<lambda>x. InputHash x \<noteq> f)
          (embedding_cache (snd (StoreEmbedding e w f text1 model1 v1)))
         = filter (\<lambda>x. InputHash x \<noteq> f) (embedding_cache w)
     \<and> (\<not> dbFault e (dbStmts w + 1) \<longrightarrow>
          fst (StoreEmbedding e (snd (StoreEmbedding e w f text1 model1 v1)) f text2 model2 v2) = None
          \<and> filter (\<lambda>x. InputHash x = f)
               (embedding_cache
                  (snd (StoreEmbedding e (snd (StoreEmbedding e w f text1 model1 v1))
                          f text2 model2 v2)))
              = [r\<lparr>EmbeddingVector := v2, UpdatedAt := dbNow e (dbStmts w + 1),
                    UsedAt := dbNow e (dbStmts w + 1)\<rparr>])
     \<and> (\<not> dbFault e (dbStmts w + 1) \<and> strict_mono (dbNow e) \<longrightarrow>
          (\<forall>x \<in> set (embedding_cache (snd (StoreEmbedding e w f text1 model1 v1))).
           \<forall>y \<in> set (embedding_cache
                        (snd (StoreEmbedding e (snd (StoreEmbedding e w f text1 model1 v1))
                                f text2 model2 v2))).
             InputHash x = f \<and> InputHash y = f
               \<longrightarrow> UpdatedAt x < UpdatedAt y \<and> EmbeddingVector y = v2))"
proof -
  let ?k = "dbStmts w"
  let ?g1 = "\<lambda>x. if InputHash x = f
                   then x\<lparr>EmbeddingVector := v1, UpdatedAt := dbNow e ?k, UsedAt := dbNow e ?k\<rparr>
                   else x"
  let ?r1 = "r\<lparr>EmbeddingVector := v1, UpdatedAt := dbNow e ?k, UsedAt := dbNow e ?k\<rparr>"
  let ?r2 = "r\<lparr>EmbeddingVector := v2, UpdatedAt := dbNow e (?k + 1), UsedAt := dbNow e (?k + 1)\<rparr>"
  let ?rows1 = "map ?g1 (embedding_cache w)"
  let ?w1 = "snd (StoreEmbedding e w f text1 model1 v1)"
  let ?w2 = "snd (StoreEmbedding e ?w1 f text2 model2 v2)"
  have s1: "StoreEmbedding e w f text1 model1 v1
              = (None, w\<lparr>dbStmts := ?k + 1, embedding_cache := ?rows1\<rparr>)"
    using ok r f by (rule StoreEmbedding_hit)
  have e1: "filter (\<lambda>x. InputHash x = f) ?rows1 = [?r1]"
    using u r f by (rule refreshed_entry)
  have fr: "filter (\<lambda>x. InputHash x \<noteq> f) ?rows1 = filter (\<lambda>x. InputHash x \<noteq> f) (embedding_cache w)"
    by (rule refreshed_frame)
  have w1: "?w1 = w\<lparr>dbStmts := ?k + 1, embedding_cache := ?rows1\<rparr>" using s1 by simp
  have ec1: "embedding_cache ?w1 = ?rows1" using w1 by simp
  have c1: "filter (\<lambda>x. InputHash x = f) (embedding_cache ?w1) = [?r1]" using e1 ec1 by simp
  have second: "fst (StoreEmbedding e ?w1 f text2 model2 v2) = None
      \<and> filter (\<lambda>x. InputHash x = f) (embedding_cache ?w2) = [?r2]"
    if ok2: "\<not> dbFault e (?k + 1)"
  proof -
    have u1: "distinct (map InputHash ?rows1)"
      using u by (simp only: refreshed_hashes)
    have "?r1 \<in> set (filter (\<lambda>x. InputHash x = f) ?rows1)" unfolding e1 by simp
    then have r1': "?r1 \<in> set ?rows1" by (rule subsetD [OF filter_is_subset])
    have r1: "?r1 \<in> set (embedding_cache ?w1)" unfolding ec1 by (rule r1')
    have f1: "InputHash ?r1 = f" using f by simp
    have ok2': "\<not> dbFault e (dbStmts ?w1)" using ok2 w1 by simp
    have k1: "dbStmts ?w1 = ?k + 1" using w1 by simp
    have s2: "StoreEmbedding e ?w1 f text2 model2 v2
                = (None, ?w1\<lparr>dbStmts := ?k + 1 + 1,
                     embedding_cache :=
                       map (\<lambda>x. if InputHash x = f
                                  then x\<lparr>EmbeddingVector := v2, UpdatedAt := dbNow e (?k + 1),
                                         UsedAt := dbNow e (?k + 1)\<rparr>
                                  else x) (embedding_cache ?w1)\<rparr>)"
      using StoreEmbedding_hit [OF ok2' r1 f1, of text2 model2 v2] unfolding k1 .
    have ec2: "embedding_cache ?w2
                = map (\<lambda>x. if InputHash x = f
                             then x\<lparr>EmbeddingVector := v2, UpdatedAt := dbNow e (?k + 1),
                                    UsedAt := dbNow e (?k + 1)\<rparr>
                             else x) ?rows1"
      unfolding s2 ec1 [symmetric] by simp
    have "filter (\<lambda>x. InputHash x = f)
            (map (\<lambda>x. if InputHash x = f
                        then x\<lparr>EmbeddingVector := v2, UpdatedAt := dbNow e (?k + 1),
                               UsedAt := dbNow e (?k + 1)\<rparr>
                        else x) ?rows1)
          = [?r1\<lparr>EmbeddingVector := v2, UpdatedAt := dbNow e (?k + 1),
                  UsedAt := dbNow e (?k + 1)\<rparr>]"
      using u1 _ f1
      by (rule refreshed_entry) (rule r1')
    then have "filter (\<lambda>x. InputHash x = f) (embedding_cache ?w2) = [?r2]"
      unfolding ec2 by simp
    moreover have "fst (StoreEmbedding e ?w1 f text2 model2 v2) = None"
      unfolding s2 by simp
    ultimately show ?thesis by (rule conjI [rotated])
  qed
  have advanced: "UpdatedAt x < UpdatedAt y \<and> EmbeddingVector y = v2"
    if ok2: "\<not> dbFault e (?k + 1)" and clock: "strict_mono (dbNow e)"
      and x: "x \<in> set (embedding_cache ?w1)" and y: "y \<in> set (embedding_cache ?w2)"
      and fx: "InputHash x = f" and fy: "InputHash y = f" for x y
  proof -
    from x fx have "x \<in> set (filter (\<lambda>x. InputHash x = f) (embedding_cache ?w1))" by simp
    then have x1: "x = ?r1" by (simp only: c1) simp
    from y fy have "y \<in> set (filter (\<lambda>x. InputHash x = f) (embedding_cache ?w2))" by simp
    moreover have "filter (\<lambda>x. InputHash x = f) (embedding_cache ?w2) = [?r2]"
      using second [OF ok2] by (rule conjunct2)
    ultimately have y2: "y = ?r2" by (simp only:) simp
    have "dbNow e ?k < dbNow e (?k + 1)" using clock by (simp add: strict_mono_def)
    with x1 y2 show ?thesis by simp
  qed
  have first: "fst (StoreEmbedding e w f text1 model1 v1) = None" using s1 by simp
  have frame: "filter (\<lambda>x. InputHash x \<noteq> f) (embedding_cache ?w1)
                 = filter (\<lambda>x. InputHash x \<noteq> f) (embedding_cache w)"
    using fr ec1 by simp
  have later: "\<not> dbFault e (?k + 1) \<and> strict_mono (dbNow e) \<longrightarrow>
          (\<forall>x \<in> set (embedding_cache ?w1). \<forall>y \<in> set (embedding_cache ?w2).
             InputHash x = f \<and> InputHash y = f
               \<longrightarrow> UpdatedAt x < UpdatedAt y \<and> EmbeddingVector y = v2)"
    using advanced by blast
  from first c1 frame second later show ?thesis by blast
qed

theorem upsert_on_collision_witness:
  "fst (StoreEmbedding exampleEnv exampleWorld (InputHash exampleRow) ''x'' ''n'' [8]) = None
   \<and> filter (\<lambda>x. InputHash x = InputHash exampleRow)
        (embedding_cache
           (snd (StoreEmbedding exampleEnv exampleWorld (InputHash exampleRow) ''x'' ''n'' [8])))
       = [exampleRow\<lparr>EmbeddingVector := [8], UpdatedAt := 100, UsedAt := 100\<rparr>]
   \<and> filter (\<lambda>x. InputHash x = InputHash exampleRow)
        (embedding_cache
           (snd (StoreEmbedding exampleEnv
                   (snd (StoreEmbedding exampleEnv exampleWorld (InputHash exampleRow) ''x'' ''n'' [8]))
                   (InputHash exampleRow) ''y'' ''k'' [9])))
       = [exampleRow\<lparr>EmbeddingVector := [9], UpdatedAt := 101, UsedAt := 101\<rparr>]
   \<and> strict_mono (dbNow exampleEnv)"
proof -
  have u: "distinct (map InputHash (embedding_cache exampleWorld))"
    by (simp add: exampleWorld_def)
  have r: "exampleRow \<in> set (embedding_cache exampleWorld)"
    by (simp add: exampleWorld_def)
  have ok: "\<not> dbFault exampleEnv (dbStmts exampleWorld)"
    by (simp add: exampleEnv_def)
  have ok2: "\<not> dbFault exampleEnv (dbStmts exampleWorld + 1)"
    by (simp add: exampleEnv_def)
  have now1: "dbNow exampleEnv (dbStmts exampleWorld) = 100"
    by (simp add: exampleEnv_def exampleWorld_def)
  have now2: "dbNow exampleEnv (dbStmts exampleWorld + 1) = 101"
    by (simp add: exampleEnv_def exampleWorld_def)
  have clock: "strict_mono (dbNow exampleEnv)"
    by (simp add: strict_mono_def exampleEnv_def)
  show ?thesis
    using upsert_on_collision [OF u r refl ok, of "''x''" "''n''" "[8]" "''y''" "''k''" "[9]"]
      ok2 now1 now2 clock
    by simp
qed


section \<open>Properties of the batch lookup\<close>

lemma attachCached_length: "length (attachCached m r items) = length items"
  by (simp add: attachCached_def split: option.splits)

lemma list_update_Cached_Hash:
  "map Hash (items[p := (items ! p)\<lparr>Cached := c\<rparr>]) = map Hash items"
  by (induction items arbitrary: p) (simp_all split: nat.splits)

lemma list_update_Cached_Input:
  "map Input (items[p := (items ! p)\<lparr>Cached := c\<rparr>]) = map Input items"
  by (induction items arbitrary: p) (simp_all split: nat.splits)

lemma attachCached_Hash: "map Hash (attachCached m r items) = map Hash items"
  by (simp add: attachCached_def list_update_Cached_Hash split: option.splits)

lemma attachCached_Input: "map Input (attachCached m r items) = map Input items"
  by (simp add: attachCached_def list_update_Cached_Input split: option.splits)

lemma attachCached_other:
  "m (InputHash r) \<noteq> Some p \<Longrightarrow> attachCached m r items ! p = items ! p"
  by (auto simp: attachCached_def split: option.splits)

lemma attachCached_at:
  "m (InputHash r) = Some p \<Longrightarrow> p < length items
     \<Longrightarrow> Cached (attachCached m r items ! p) = Some r"
  by (simp add: attachCached_def)

lemma fold_attach_length: "length (fold (attachCached m) embs items) = length items"
  by (induction embs arbitrary: items) (simp_all add: attachCached_length)

lemma fold_attach_Input: "map Input (fold (attachCached m) embs items) = map Input items"
  by (induction embs arbitrary: items) (simp_all add: attachCached_Input)

lemma fold_attach_untouched:
  "\<forall>r\<in>set embs. m (InputHash r) \<noteq> Some p
     \<Longrightarrow> fold (attachCached m) embs items ! p = items ! p"
  by (induction embs arbitrary: items) (simp_all add: attachCached_other)

lemma fold_attach_hit:
  assumes "distinct (map InputHash embs)" and "r \<in> set embs"
    and "m (InputHash r) = Some p" and "p < length items"
    and "\<forall>h. m h = Some p \<longrightarrow> h = InputHash r"
  shows "Cached (fold (attachCached m) embs items ! p) = Some r"
  using assms
proof (induction embs arbitrary: items)
  case Nil
  then show ?case by simp
next
  case (Cons x embs)
  show ?case
  proof (cases "x = r")
    case True
    have "\<forall>y\<in>set embs. m (InputHash y) \<noteq> Some p"
    proof
      fix y assume y: "y \<in> set embs"
      show "m (InputHash y) \<noteq> Some p"
      proof
        assume "m (InputHash y) = Some p"
        with Cons.prems(5) have "InputHash y = InputHash r" by blast
        moreover from Cons.prems(1) True have "InputHash r \<notin> InputHash ` set embs" by simp
        ultimately show False using y by (metis imageI)
      qed
    qed
    then have "fold (attachCached m) embs (attachCached m r items) ! p
                 = attachCached m r items ! p"
      by (rule fold_attach_untouched)
    with True Cons.prems(3,4) show ?thesis by (simp add: attachCached_at)
  next
    case False
    with Cons.prems(1,2) have r: "r \<in> set embs" and d: "distinct (map InputHash embs)" by auto
    have len: "p < length (attachCached m x items)"
      using Cons.prems(4) by (simp add: attachCached_length)
    have "Cached (fold (attachCached m) embs (attachCached m x items) ! p) = Some r"
      using d r Cons.prems(3) len Cons.prems(5) by (rule Cons.IH)
    then show ?thesis by simp
  qed
qed

lemma build_miss:
  "h \<notin> Hash ` set items \<Longrightarrow> buildHashToItem items i m h = m h"
  by (induction items arbitrary: i m) auto

lemma build_range:
  "buildHashToItem items i m h = Some q
     \<Longrightarrow> m h = Some q \<or> (i \<le> q \<and> q - i < length items \<and> Hash (items ! (q - i)) = h)"
proof (induction items arbitrary: i m)
  case Nil
  then show ?case by simp
next
  case (Cons item rest)
  from Cons.prems have "buildHashToItem rest (i + 1) (m(Hash item \<mapsto> i)) h = Some q" by simp
  from Cons.IH [OF this]
  consider "(m(Hash item \<mapsto> i)) h = Some q"
    | "i + 1 \<le> q \<and> q - (i + 1) < length rest \<and> Hash (rest ! (q - (i + 1))) = h"
    by blast
  then show ?case
  proof cases
    case 1
    then show ?thesis by (auto split: if_splits)
  next
    case 2
    then have "q - i = Suc (q - (i + 1))" by arith
    with 2 show ?thesis by simp
  qed
qed

lemma build_last:
  "p < length items \<Longrightarrow> Hash (items ! p) = h
     \<Longrightarrow> \<forall>q. p < q \<and> q < length items \<longrightarrow> Hash (items ! q) \<noteq> h
     \<Longrightarrow> buildHashToItem items i m h = Some (i + p)"
proof (induction items arbitrary: i m p)
  case Nil
  then show ?case by simp
next
  case (Cons item rest)
  show ?case
  proof (cases p)
    case 0
    have "h \<notin> Hash ` set rest"
    proof
      assume "h \<in> Hash ` set rest"
      then obtain k where "k < length rest" and "Hash (rest ! k) = h"
        by (auto simp: in_set_conv_nth)
      with Cons.prems(3) [rule_format, of "Suc k"] 0 show False by simp
    qed
    then have "buildHashToItem rest (i + 1) (m(Hash item \<mapsto> i)) h = (m(Hash item \<mapsto> i)) h"
      by (rule build_miss)
    with Cons.prems(2) 0 show ?thesis by simp
  next
    case (Suc p')
    with Cons.prems have a: "p' < length rest" and b: "Hash (rest ! p') = h" by auto
    have c: "\<forall>q. p' < q \<and> q < length rest \<longrightarrow> Hash (rest ! q) \<noteq> h"
    proof (intro allI impI)
      fix q assume "p' < q \<and> q < length rest"
      with Cons.prems(3) [rule_format, of "Suc q"] Suc show "Hash (rest ! q) \<noteq> h" by simp
    qed
    have "buildHashToItem rest (i + 1) (m(Hash item \<mapsto> i)) h = Some (i + 1 + p')"
      using a b c by (rule Cons.IH)
    with Suc show ?thesis by simp
  qed
qed

lemma build_some_later:
  "q < length items \<Longrightarrow> Hash (items ! q) = h
     \<Longrightarrow> \<exists>l. q \<le> l \<and> l < length items \<and> buildHashToItem items i m h = Some (i + l)"
proof (induction items arbitrary: i m q)
  case Nil
  then show ?case by simp
next
  case (Cons item rest)
  show ?case
  proof (cases "h \<in> Hash ` set rest")
    case True
    then obtain k where k: "k < length rest" "Hash (rest ! k) = h"
      by (auto simp: in_set_conv_nth)
    define q' where "q' = (case q of 0 \<Rightarrow> k | Suc n \<Rightarrow> n)"
    have q': "q' < length rest" "Hash (rest ! q') = h" "q \<le> Suc q'"
      using Cons.prems k by (auto simp: q'_def split: nat.splits)
    have "\<exists>l. q' \<le> l \<and> l < length rest
            \<and> buildHashToItem rest (i + 1) (m(Hash item \<mapsto> i)) h = Some (i + 1 + l)"
      using q'(1,2) by (rule Cons.IH)
    then obtain l where "q' \<le> l" "l < length rest"
      "buildHashToItem rest (i + 1) (m(Hash item \<mapsto> i)) h = Some (i + 1 + l)" by blast
    with q'(3) show ?thesis by (intro exI [of _ "Suc l"]) simp
  next
    case False
    with Cons.prems have q0: "q = 0" by (cases q) auto
    from False have "buildHashToItem rest (i + 1) (m(Hash item \<mapsto> i)) h = (m(Hash item \<mapsto> i)) h"
      by (rule build_miss)
    with Cons.prems q0 show ?thesis by (intro exI [of _ 0]) simp
  qed
qed

lemma prepare_length: "length (prepareBatchItems e inputs modelName) = length inputs"
  by (simp add: prepareBatchItems_def)

lemma prepare_nth:
  "p < length inputs \<Longrightarrow>
     prepareBatchItems e inputs modelName ! p
       = \<lparr>Input = inputs ! p, Hash = GenerateInputHash (sum256 e) (inputs ! p) modelName,
          Index = p, Cached = None\<rparr>"
  by (simp add: prepareBatchItems_def nth_enumerate_eq)

lemma lookup_ok:
  "items \<noteq> [] \<Longrightarrow> \<not> dbFault e (dbStmts w) \<Longrightarrow>
     GetBatchCachedEmbeddings e w items
       = (Inr (fold (attachCached (buildHashToItem items 0 Map.empty))
                 (filter (\<lambda>r. InputHash r \<in> set (map Hash items)) (embedding_cache w)) items),
          w\<lparr>dbStmts := dbStmts w + 1\<rparr>)"
  by (simp add: GetBatchCachedEmbeddings_def Let_def)

text \<open>What the lookup leaves at a position that is not the last with its hash, at the
  last position with a stored hash, and at a position whose hash is not stored.\<close>

lemma lookup_earlier_occurrence:
  assumes "p < q" and "q < length items" and "Hash (items ! p) = Hash (items ! q)"
  shows "fold (attachCached (buildHashToItem items 0 Map.empty)) embs items ! p = items ! p"
proof (rule fold_attach_untouched, rule ballI, rule notI)
  fix r assume "buildHashToItem items 0 Map.empty (InputHash r) = Some p"
  from build_range [OF this] assms have h: "InputHash r = Hash (items ! q)" by simp
  from build_some_later [OF assms(2) refl, of 0 Map.empty]
  obtain l where "q \<le> l" "buildHashToItem items 0 Map.empty (Hash (items ! q)) = Some l" by auto
  with h \<open>buildHashToItem items 0 Map.empty (InputHash r) = Some p\<close> assms(1)
  show False by simp
qed

lemma lookup_not_stored:
  assumes "p < length items" and "Hash (items ! p) \<notin> InputHash ` set embs"
  shows "fold (attachCached (buildHashToItem items 0 Map.empty)) embs items ! p = items ! p"
proof (rule fold_attach_untouched, rule ballI, rule notI)
  fix r assume r: "r \<in> set embs"
    and "buildHashToItem items 0 Map.empty (InputHash r) = Some p"
  from build_range [OF this(2)] have "InputHash r = Hash (items ! p)" by simp
  with r assms(2) show False by (metis imageI)
qed

lemma lookup_last_occurrence:
  assumes "distinct (map InputHash embs)" and "r \<in> set embs"
    and "l < length items" and "Hash (items ! l) = InputHash r"
    and "\<forall>q. l < q \<and> q < length items \<longrightarrow> Hash (items ! q) \<noteq> InputHash r"
  shows "Cached (fold (attachCached (buildHashToItem items 0 Map.empty)) embs items ! l) = Some r"
proof (rule fold_attach_hit [OF assms(1,2) _ assms(3)])
  show "buildHashToItem items 0 Map.empty (InputHash r) = Some l"
    using build_last [OF assms(3,4,5), of 0 Map.empty] by simp
  show "\<forall>h. buildHashToItem items 0 Map.empty h = Some l \<longrightarrow> h = InputHash r"
  proof (intro allI impI)
    fix h assume "buildHashToItem items 0 Map.empty h = Some l"
    from build_range [OF this] assms(4) show "h = InputHash r" by simp
  qed
qed

text \<open>The API calls of the retry loop and of a batch request: each carries the same
  texts, and the first attempt is made whenever \<open>maxRetries\<close> is not negative.\<close>

lemma retryLoop_apiCalls:
  "\<exists>n. apiCalls (snd (retryLoop e c inputs attempt lastErr w)) = apiCalls w @ replicate n inputs
        \<and> (attempt = 0 \<and> 0 \<le> maxRetries c \<longrightarrow> 0 < n)"
proof (induction e c inputs attempt lastErr w rule: retryLoop.induct)
  case (1 e c inputs attempt lastErr w)
  let ?w' = "w\<lparr>apiCalls := apiCalls w @ [inputs]\<rparr>"
  have step: "\<exists>n. apiCalls (snd (retryLoop e c inputs (attempt + 1) le ?w'))
                    = apiCalls w @ replicate n inputs \<and> 0 < n"
    if "\<exists>n. apiCalls (snd (retryLoop e c inputs (attempt + 1) le ?w'))
               = apiCalls ?w' @ replicate n inputs
               \<and> (attempt + 1 = 0 \<and> 0 \<le> maxRetries c \<longrightarrow> 0 < n)" for le
  proof -
    from that obtain n where
      "apiCalls (snd (retryLoop e c inputs (attempt + 1) le ?w')) = apiCalls ?w' @ replicate n inputs"
      by blast
    then have "apiCalls (snd (retryLoop e c inputs (attempt + 1) le ?w'))
                 = apiCalls w @ replicate (Suc n) inputs"
      by (simp add: replicate_append_same)
    then show ?thesis by blast
  qed
  show ?case
  proof (cases "attempt \<le> maxRetries c")
    case False
    then have "retryLoop e c inputs attempt lastErr w
                 = (Inl (AfterAttempts (maxRetries c + 1) lastErr), w)"
      by (subst retryLoop.simps) simp
    with False show ?thesis by (intro exI [of _ 0]) auto
  next
    case True
    show ?thesis
    proof (cases "0 < attempt \<and> ctxDone e (length (apiCalls w))")
      case ctx: True
      with True have "retryLoop e c inputs attempt lastErr w = (Inl ContextErr, w)"
        by (subst retryLoop.simps) simp
      with ctx show ?thesis by (intro exI [of _ 0]) auto
    next
      case noctx: False
      show ?thesis
      proof (cases "apiReply e (length (apiCalls w)) (model c) inputs")
        case (ApiFail err)
        with True noctx have
          "retryLoop e c inputs attempt lastErr w
             = retryLoop e c inputs (attempt + 1) (Some (TransportErr err)) ?w'"
          by (subst retryLoop.simps) auto
        moreover note step [OF "1.IH"(1) [OF True noctx ApiFail]]
        ultimately show ?thesis by auto
      next
        case (ApiOk data respModel promptTokens totalTokens)
        show ?thesis
        proof (cases "data = []")
          case empty: True
          with True noctx ApiOk have
            "retryLoop e c inputs attempt lastErr w
               = retryLoop e c inputs (attempt + 1) (Some NoEmbeddingData) ?w'"
            by (subst retryLoop.simps) auto
          moreover note step [OF "1.IH"(2) [OF True noctx ApiOk empty]]
          ultimately show ?thesis by auto
        next
          case nonempty: False
          show ?thesis
          proof (cases "scanData data 0 lastErr \<noteq> None")
            case bad: True
            with True noctx ApiOk nonempty have
              "retryLoop e c inputs attempt lastErr w
                 = retryLoop e c inputs (attempt + 1) (scanData data 0 lastErr) ?w'"
              by (subst retryLoop.simps) auto
            moreover note step [OF "1.IH"(3) [OF True noctx ApiOk nonempty bad]]
            ultimately show ?thesis by auto
          next
            case good: False
            with True noctx ApiOk nonempty have
              "snd (retryLoop e c inputs attempt lastErr w) = ?w'"
              by (subst retryLoop.simps) auto
            then show ?thesis by (intro exI [of _ 1]) simp
          qed
        qed
      qed
    qed
  qed
qed

lemma StoreEmbedding_apiCalls:
  "apiCalls (snd (StoreEmbedding e w h t m v)) = apiCalls w"
  by (simp add: StoreEmbedding_def Let_def split: sum.splits)

lemma storeBatchEmbeddings_apiCalls:
  "apiCalls (storeBatchEmbeddings e w items i aiResponse modelName) = apiCalls w"
  by (induction items arbitrary: w i) (simp_all add: StoreEmbedding_apiCalls)

lemma trackHits_apiCalls: "apiCalls (trackHits c w items) = apiCalls w"
  by (induction items arbitrary: w) (simp_all add: trackHit_def split: option.splits)

lemma trackHits_dbStmts: "dbStmts (trackHits c w items) = dbStmts w"
  by (induction items arbitrary: w) (simp_all add: trackHit_def split: option.splits)

lemma resolveUncached_apiCalls:
  assumes "length uncachedItems \<le> 1000"
  shows "\<exists>n. apiCalls (snd (resolveUncached e c w uncachedItems modelName))
               = apiCalls w @ replicate n (map Input uncachedItems)
             \<and> (uncachedItems \<noteq> [] \<and> 0 \<le> maxRetries (ai c) \<longrightarrow> 0 < n)"
proof (cases "uncachedItems = []")
  case True
  then show ?thesis by (intro exI [of _ 0]) (simp add: resolveUncached_def)
next
  case False
  from retryLoop_apiCalls [of e "ai c" "map Input uncachedItems" 0 None w]
  obtain n where n:
    "apiCalls (snd (retryLoop e (ai c) (map Input uncachedItems) 0 None w))
       = apiCalls w @ replicate n (map Input uncachedItems)"
    "0 \<le> maxRetries (ai c) \<longrightarrow> 0 < n"
    by auto
  have "apiCalls (snd (resolveUncached e c w uncachedItems modelName))
          = apiCalls (snd (retryLoop e (ai c) (map Input uncachedItems) 0 None w))"
    using False assms
    by (simp add: resolveUncached_def createBatchEmbeddings_def CreateBatchEmbeddings_def
          storeBatchEmbeddings_apiCalls split: prod.splits sum.splits)
  with n show ?thesis by auto
qed

lemma processBatchRequest_apiCalls:
  assumes inp: "normalizeInput_cache (ReqInput req) = Inr inputs"
    and ne: "inputs \<noteq> []" and le: "length inputs \<le> 1000"
    and lk: "fst (GetBatchCachedEmbeddings e w (prepareBatchItems e inputs (modelNameOf c req)))
               = Inr items'"
  shows "\<exists>n. apiCalls (snd (processBatchRequest e c w req))
               = apiCalls w @ replicate n (map Input (getUncachedItems items'))
             \<and> (getUncachedItems items' \<noteq> [] \<and> 0 \<le> maxRetries (ai c) \<longrightarrow> 0 < n)"
proof -
  let ?items = "prepareBatchItems e inputs (modelNameOf c req)"
  obtain w1 where g: "GetBatchCachedEmbeddings e w ?items = (Inr items', w1)"
    using lk by (cases "GetBatchCachedEmbeddings e w ?items") simp
  have w1: "apiCalls w1 = apiCalls w"
    using g by (auto simp: GetBatchCachedEmbeddings_def Let_def split: if_splits)
  have ine: "?items \<noteq> []"
    using ne prepare_length [of e inputs "modelNameOf c req"] by auto
  have l': "length items' = length inputs"
    using g ine
    by (auto simp: GetBatchCachedEmbeddings_def Let_def fold_attach_length prepare_length
          split: if_splits)
  have "length (getUncachedItems items') \<le> length items'"
    by (simp add: getUncachedItems_def)
  with l' le have u: "length (getUncachedItems items') \<le> 1000" by simp
  let ?w2 = "trackHits c w1 items'"
  from resolveUncached_apiCalls [OF u, of e c ?w2 "modelNameOf c req"]
  obtain n where n:
    "apiCalls (snd (resolveUncached e c ?w2 (getUncachedItems items') (modelNameOf c req)))
       = apiCalls ?w2 @ replicate n (map Input (getUncachedItems items'))"
    "getUncachedItems items' \<noteq> [] \<and> 0 \<le> maxRetries (ai c) \<longrightarrow> 0 < n"
    by blast
  have "apiCalls (snd (processBatchRequest e c w req))
          = apiCalls (snd (resolveUncached e c ?w2 (getUncachedItems items') (modelNameOf c req)))"
    using inp ne le g
    by (simp add: processBatchRequest_def Let_def split: prod.splits sum.splits)
  with n w1 show ?thesis by (auto simp: trackHits_apiCalls)
qed

text \<open>The equations that evaluate the batch path on the example values; the digest
  stays symbolic.\<close>

lemmas batch_eval =
  processBatchRequest_def normalizeInput_cache_def modelNameOf_def prepareBatchItems_def
  GetBatchCachedEmbeddings_def attachCached_def getUncachedItems_def resolveUncached_def
  createBatchEmbeddings_def CreateBatchEmbeddings_def retryLoop.simps usageOf_def
  StoreEmbedding_def upsert_def assembleBatchResults_def extractEmbeddings_def
  extractCachedFlags_def noUsage_def trackHit_def Let_def
  exampleCache_def exampleEnv_def exampleWorld_def exampleRow_def

text \<open>
  C9. When the same string stands at positions \<open>i < j\<close> of a batch and its fingerprint is
  stored, the lookup leaves position \<open>i\<close> without a cached entry: it is among the uncached
  items, its text is among the texts of the provider call, and every API call the request
  makes carries exactly the texts of the uncached items (at least one call is made
  when \<open>maxRetries\<close> is not negative). The entry is attached to \<open>j\<close> when no later position
  has the same fingerprint, so of the positions of one string only the last can be a
  hit. Equal inputs can thus get different hit-flags: on the example table the batch
  \<open>["a", "a"]\<close> is answered with the flags \<open>[false, true]\<close>.
\<close>

theorem duplicate_inputs_lookup:
  assumes u: "distinct (map InputHash (embedding_cache w))"
    and ok: "\<not> dbFault e (dbStmts w)"
    and inp: "normalizeInput_cache (ReqInput req) = Inr inputs"
    and le: "length inputs \<le> 1000"
    and ij: "i < j" "j < length inputs"
    and dup: "inputs ! i = inputs ! j"
    and r: "r \<in> set (embedding_cache w)"
      "InputHash r = GenerateInputHash (sum256 e) (inputs ! j) (modelNameOf c req)"
  shows
    "(\<exists>items' n.
       fst (GetBatchCachedEmbeddings e w (prepareBatchItems e inputs (modelNameOf c req)))
         = Inr items'
       \<and> length items' = length inputs
       \<and> Cached (items' ! i) = None
       \<and> items' ! i \<in> set (getUncachedItems items')
       \<and> inputs ! i \<in> set (map Input (getUncachedItems items'))
       \<and> apiCalls (snd (processBatchRequest e c w req))
           = apiCalls w @ replicate n (map Input (getUncachedItems items'))
       \<and> (0 \<le> maxRetries (ai c) \<longrightarrow> 0 < n)
       \<and> ((\<forall>q. j < q \<and> q < length inputs
                 \<longrightarrow> GenerateInputHash (sum256 e) (inputs ! q) (modelNameOf c req) \<noteq> InputHash r)
            \<longrightarrow> Cached (items' ! j) = Some r))
     \<and> (case fst (processBatchRequest exampleEnv exampleCache exampleWorld
                     \<lparr>ReqInput = IfSlice [IfString ''a'', IfString ''a''], ReqModel = []\<rparr>) of
           Inl err \<Rightarrow> False
         | Inr response \<Rightarrow> CachedItems response = [False, True])"
proof -
  let ?items = "prepareBatchItems e inputs (modelNameOf c req)"
  let ?embs = "filter (\<lambda>r. InputHash r \<in> set (map Hash ?items)) (embedding_cache w)"
  let ?items' = "fold (attachCached (buildHashToItem ?items 0 Map.empty)) ?embs ?items"
  have len: "length ?items = length inputs" by (rule prepare_length)
  have i: "i < length inputs" using ij by simp
  have ine: "inputs \<noteq> []" using ij by auto
  have ne: "?items \<noteq> []" using len ij by auto
  have res: "fst (GetBatchCachedEmbeddings e w ?items) = Inr ?items'"
    using lookup_ok [OF ne ok] by simp
  have len2: "length ?items' = length inputs" by (simp add: fold_attach_length len)
  have hij: "Hash (?items ! i) = Hash (?items ! j)"
    using i ij dup by (simp add: prepare_nth)
  have jl: "j < length ?items" using ij(2) len by simp
  have same: "?items' ! i = ?items ! i"
    using ij(1) jl hij by (rule lookup_earlier_occurrence)
  then have nonei: "Cached (?items' ! i) = None" using i by (simp add: prepare_nth)
  have mem: "?items' ! i \<in> set (getUncachedItems ?items')"
    using nonei i len2 by (simp add: getUncachedItems_def)
  have inp_i: "Input (?items' ! i) = inputs ! i" using same i by (simp add: prepare_nth)
  have intexts: "inputs ! i \<in> set (map Input (getUncachedItems ?items'))"
    using mem inp_i by force
  have unc: "getUncachedItems ?items' \<noteq> []" using mem by auto
  from processBatchRequest_apiCalls [OF inp ine le res] unc
  obtain n where calls:
    "apiCalls (snd (processBatchRequest e c w req))
       = apiCalls w @ replicate n (map Input (getUncachedItems ?items'))"
    "0 \<le> maxRetries (ai c) \<longrightarrow> 0 < n"
    by blast
  have last: "Cached (?items' ! j) = Some r"
    if nolater: "\<forall>q. j < q \<and> q < length inputs
                   \<longrightarrow> GenerateInputHash (sum256 e) (inputs ! q) (modelNameOf c req) \<noteq> InputHash r"
  proof (rule lookup_last_occurrence)
    show "distinct (map InputHash ?embs)" using u by (rule distinct_map_filter)
    have "Hash (?items ! j) \<in> set (map Hash ?items)" using jl by simp
    then show "r \<in> set ?embs" using r ij(2) by (simp add: prepare_nth)
    show "j < length ?items" by (rule jl)
    show "Hash (?items ! j) = InputHash r" using r(2) ij(2) by (simp add: prepare_nth)
    show "\<forall>q. j < q \<and> q < length ?items \<longrightarrow> Hash (?items ! q) \<noteq> InputHash r"
      using nolater by (simp add: len prepare_nth)
  qed
  have general: "\<exists>items' n.
       fst (GetBatchCachedEmbeddings e w ?items) = Inr items'
       \<and> length items' = length inputs
       \<and> Cached (items' ! i) = None
       \<and> items' ! i \<in> set (getUncachedItems items')
       \<and> inputs ! i \<in> set (map Input (getUncachedItems items'))
       \<and> apiCalls (snd (processBatchRequest e c w req))
           = apiCalls w @ replicate n (map Input (getUncachedItems items'))
       \<and> (0 \<le> maxRetries (ai c) \<longrightarrow> 0 < n)
       \<and> ((\<forall>q. j < q \<and> q < length inputs
                 \<longrightarrow> GenerateInputHash (sum256 e) (inputs ! q) (modelNameOf c req) \<noteq> InputHash r)
            \<longrightarrow> Cached (items' ! j) = Some r)"
    using res len2 nonei mem intexts calls last by blast
  have example:
    "(case fst (processBatchRequest exampleEnv exampleCache exampleWorld
                  \<lparr>ReqInput = IfSlice [IfString ''a'', IfString ''a''], ReqModel = []\<rparr>) of
        Inl err \<Rightarrow> False
      | Inr response \<Rightarrow> CachedItems response = [False, True])"
    by (simp add: batch_eval)
  from general example show ?thesis by (rule conjI)
qed

theorem duplicate_inputs_lookup_witness:
  "\<exists>items' n.
     fst (GetBatchCachedEmbeddings exampleEnv exampleWorld
            (prepareBatchItems exampleEnv [''a'', ''a''] ''m'')) = Inr items'
     \<and> Cached (items' ! 0) = None
     \<and> ''a'' \<in> set (map Input (getUncachedItems items'))
     \<and> apiCalls (snd (processBatchRequest exampleEnv exampleCache exampleWorld
                         \<lparr>ReqInput = IfStrings [''a'', ''a''], ReqModel = []\<rparr>))
         = apiCalls exampleWorld @ replicate n (map Input (getUncachedItems items'))
     \<and> 0 < n
     \<and> Cached (items' ! 1) = Some exampleRow"
proof -
  let ?req = "\<lparr>ReqInput = IfStrings [''a'', ''a''], ReqModel = []\<rparr>"
  have m: "modelNameOf exampleCache ?req = ''m''"
    by (simp add: modelNameOf_def exampleCache_def)
  have u: "distinct (map InputHash (embedding_cache exampleWorld))"
    by (simp add: exampleWorld_def)
  have ok: "\<not> dbFault exampleEnv (dbStmts exampleWorld)"
    by (simp add: exampleEnv_def)
  have inp: "normalizeInput_cache (ReqInput ?req) = Inr [''a'', ''a'']"
    by (simp add: normalizeInput_cache_def)
  have le: "length [''a'', ''a''] \<le> 1000" by simp
  have r: "exampleRow \<in> set (embedding_cache exampleWorld)"
    by (simp add: exampleWorld_def)
  have h: "InputHash exampleRow
             = GenerateInputHash (sum256 exampleEnv) ([''a'', ''a''] ! 1)
                 (modelNameOf exampleCache ?req)"
    by (simp add: exampleRow_def exampleEnv_def m)
  have ij: "(0::nat) < 1" "1 < length [''a'', ''a'']"
    and dup: "[''a'', ''a''] ! 0 = [''a'', ''a''] ! 1"
    by simp_all
  have retries: "0 \<le> maxRetries (ai exampleCache)" by (simp add: exampleCache_def)
  have nolater: "\<forall>q. 1 < q \<and> q < length [''a'', ''a'']
         \<longrightarrow> GenerateInputHash (sum256 exampleEnv) ([''a'', ''a''] ! q)
               (modelNameOf exampleCache ?req) \<noteq> InputHash exampleRow"
    by auto
  from duplicate_inputs_lookup [OF u ok inp le ij dup r h]
  obtain items' n where
    "fst (GetBatchCachedEmbeddings exampleEnv exampleWorld
            (prepareBatchItems exampleEnv [''a'', ''a''] (modelNameOf exampleCache ?req)))
       = Inr items'"
    "Cached (items' ! 0) = None"
    "[''a'', ''a''] ! 0 \<in> set (map Input (getUncachedItems items'))"
    "apiCalls (snd (processBatchRequest exampleEnv exampleCache exampleWorld ?req))
       = apiCalls exampleWorld @ replicate n (map Input (getUncachedItems items'))"
    "0 \<le> maxRetries (ai exampleCache) \<longrightarrow> 0 < n"
    "(\<forall>q. 1 < q \<and> q < length [''a'', ''a'']
         \<longrightarrow> GenerateInputHash (sum256 exampleEnv) ([''a'', ''a''] ! q)
               (modelNameOf exampleCache ?req) \<noteq> InputHash exampleRow)
      \<longrightarrow> Cached (items' ! 1) = Some exampleRow"
    by blast
  with retries nolater m have
    "fst (GetBatchCachedEmbeddings exampleEnv exampleWorld
            (prepareBatchItems exampleEnv [''a'', ''a''] ''m'')) = Inr items'
     \<and> Cached (items' ! 0) = None
     \<and> ''a'' \<in> set (map Input (getUncachedItems items'))
     \<and> apiCalls (snd (processBatchRequest exampleEnv exampleCache exampleWorld ?req))
         = apiCalls exampleWorld @ replicate n (map Input (getUncachedItems items'))
     \<and> 0 < n
     \<and> Cached (items' ! 1) = Some exampleRow"
    by simp
  then show ?thesis by blast
qed

text \<open>
  C10. A single request for the empty string is refused by \<open>processSingleRequest\<close> with
  the world untouched. A batch that contains the empty string passes \<open>ValidateRequest\<close>
  as long as it is non-empty, has at most 1000 items and no item longer than 10000
  bytes; and when the fingerprint of the empty string is not stored, the lookup leaves
  its position uncached, the empty string is among the texts for the provider, and
  every API call the request makes carries these texts (at least one call is made when
  \<open>maxRetries\<close> is not negative).
\<close>

theorem empty_string_asymmetry:
  "processSingleRequest e c w \<lparr>ReqInput = IfString [], ReqModel = m\<rparr>
     = (Inl InputTextCannotBeEmpty, w)
   \<and> (inputs \<noteq> [] \<and> length inputs \<le> 1000 \<and> \<not> list_ex (\<lambda>s. 10000 < length s) inputs
        \<and> [] \<in> set inputs
       \<longrightarrow> ValidateRequest c \<lparr>ReqInput = IfSlice (map IfString inputs), ReqModel = m\<rparr> = None
           \<and> ValidateRequest c \<lparr>ReqInput = IfStrings inputs, ReqModel = m\<rparr> = None)
   \<and> (normalizeInput_cache (ReqInput req) = Inr inputs \<and> length inputs \<le> 1000
        \<and> i < length inputs \<and> inputs ! i = [] \<and> \<not> dbFault e (dbStmts w)
        \<and> GenerateInputHash (sum256 e) [] (modelNameOf c req)
            \<notin> InputHash ` set (embedding_cache w)
       \<longrightarrow> (\<exists>items' n.
              fst (GetBatchCachedEmbeddings e w (prepareBatchItems e inputs (modelNameOf c req)))
                = Inr items'
              \<and> Cached (items' ! i) = None
              \<and> [] \<in> set (map Input (getUncachedItems items'))
              \<and> apiCalls (snd (processBatchRequest e c w req))
                  = apiCalls w @ replicate n (map Input (getUncachedItems items'))
              \<and> (0 \<le> maxRetries (ai c) \<longrightarrow> 0 < n)))"
proof (intro conjI impI)
  show "processSingleRequest e c w \<lparr>ReqInput = IfString [], ReqModel = m\<rparr>
          = (Inl InputTextCannotBeEmpty, w)"
    by (simp add: processSingleRequest_def normalizeInput_cache_def)
next
  assume a: "inputs \<noteq> [] \<and> length inputs \<le> 1000 \<and> \<not> list_ex (\<lambda>s. 10000 < length s) inputs
               \<and> [] \<in> set inputs"
  show "ValidateRequest c \<lparr>ReqInput = IfSlice (map IfString inputs), ReqModel = m\<rparr> = None"
    using a ValidateRequest_iff [of c "\<lparr>ReqInput = IfSlice (map IfString inputs), ReqModel = m\<rparr>"]
    by (simp add: itemsOf_def isBatchInput_def list_ex_map_IfString_nonstring
          list_ex_map_IfString_len)
  show "ValidateRequest c \<lparr>ReqInput = IfStrings inputs, ReqModel = m\<rparr> = None"
    using a ValidateRequest_iff [of c "\<lparr>ReqInput = IfStrings inputs, ReqModel = m\<rparr>"]
    by (simp add: itemsOf_def isBatchInput_def list_ex_map_IfString_nonstring
          list_ex_map_IfString_len)
next
  assume a: "normalizeInput_cache (ReqInput req) = Inr inputs \<and> length inputs \<le> 1000
               \<and> i < length inputs \<and> inputs ! i = [] \<and> \<not> dbFault e (dbStmts w)
               \<and> GenerateInputHash (sum256 e) [] (modelNameOf c req)
                   \<notin> InputHash ` set (embedding_cache w)"
  let ?items = "prepareBatchItems e inputs (modelNameOf c req)"
  let ?embs = "filter (\<lambda>r. InputHash r \<in> set (map Hash ?items)) (embedding_cache w)"
  let ?items' = "fold (attachCached (buildHashToItem ?items 0 Map.empty)) ?embs ?items"
  have len: "length ?items = length inputs" by (rule prepare_length)
  have ine: "inputs \<noteq> []" using a by auto
  have ne: "?items \<noteq> []" using len a by auto
  have res: "fst (GetBatchCachedEmbeddings e w ?items) = Inr ?items'"
    using lookup_ok [OF ne] a by simp
  have il: "i < length ?items" using a len by simp
  have "Hash (?items ! i) \<notin> InputHash ` set ?embs" using a by (auto simp: prepare_nth)
  with il have same: "?items' ! i = ?items ! i"
    by (rule lookup_not_stored)
  then have nonei: "Cached (?items' ! i) = None" using a by (simp add: prepare_nth)
  have mem: "?items' ! i \<in> set (getUncachedItems ?items')"
    using nonei a by (simp add: getUncachedItems_def fold_attach_length len)
  moreover have "Input (?items' ! i) = []" using same a by (simp add: prepare_nth)
  ultimately have intexts: "[] \<in> set (map Input (getUncachedItems ?items'))" by force
  have unc: "getUncachedItems ?items' \<noteq> []" using mem by auto
  have inp: "normalizeInput_cache (ReqInput req) = Inr inputs" and le: "length inputs \<le> 1000"
    using a by simp_all
  from processBatchRequest_apiCalls [OF inp ine le res] unc
  obtain n where
    "apiCalls (snd (processBatchRequest e c w req))
       = apiCalls w @ replicate n (map Input (getUncachedItems ?items'))"
    "0 \<le> maxRetries (ai c) \<longrightarrow> 0 < n"
    by blast
  with res nonei intexts
  show "\<exists>items' n.
          fst (GetBatchCachedEmbeddings e w (prepareBatchItems e inputs (modelNameOf c req)))
            = Inr items'
          \<and> Cached (items' ! i) = None
          \<and> [] \<in> set (map Input (getUncachedItems items'))
          \<and> apiCalls (snd (processBatchRequest e c w req))
              = apiCalls w @ replicate n (map Input (getUncachedItems items'))
          \<and> (0 \<le> maxRetries (ai c) \<longrightarrow> 0 < n)"
    by blast
qed

theorem empty_string_asymmetry_witness:
  "processSingleRequest exampleEnv exampleCache exampleWorld \<lparr>ReqInput = IfString [], ReqModel = []\<rparr>
     = (Inl InputTextCannotBeEmpty, exampleWorld)
   \<and> ValidateRequest exampleCache \<lparr>ReqInput = IfSlice (map IfString [''b'', []]), ReqModel = []\<rparr>
       = None
   \<and> (\<exists>items' n.
        fst (GetBatchCachedEmbeddings exampleEnv exampleWorld
               (prepareBatchItems exampleEnv [''b'', []] ''m'')) = Inr items'
        \<and> Cached (items' ! 1) = None
        \<and> [] \<in> set (map Input (getUncachedItems items'))
        \<and> apiCalls (snd (processBatchRequest exampleEnv exampleCache exampleWorld
                            \<lparr>ReqInput = IfStrings [''b'', []], ReqModel = []\<rparr>))
            = apiCalls exampleWorld @ replicate n (map Input (getUncachedItems items'))
        \<and> 0 < n)"
proof -
  let ?req = "\<lparr>ReqInput = IfStrings [''b'', []], ReqModel = []\<rparr>"
  have m: "modelNameOf exampleCache ?req = ''m''"
    by (simp add: modelNameOf_def exampleCache_def)
  have a: "[''b'', []] \<noteq> [] \<and> length [''b'', []::string] \<le> 1000
             \<and> \<not> list_ex (\<lambda>s. 10000 < length s) [''b'', []::string]
             \<and> [] \<in> set [''b'', []::string]"
    by simp
  have miss: "GenerateInputHash (sum256 exampleEnv) [] ''m''
                \<notin> InputHash ` set (embedding_cache exampleWorld)"
    by code_simp
  have b: "normalizeInput_cache (ReqInput ?req) = Inr [''b'', []]
             \<and> length [''b'', []::string] \<le> 1000
             \<and> 1 < length [''b'', []::string] \<and> [''b'', []::string] ! 1 = []
             \<and> \<not> dbFault exampleEnv (dbStmts exampleWorld)
             \<and> GenerateInputHash (sum256 exampleEnv) [] (modelNameOf exampleCache ?req)
                 \<notin> InputHash ` set (embedding_cache exampleWorld)"
    using miss by (simp add: normalizeInput_cache_def exampleEnv_def m)
  have retries: "0 \<le> maxRetries (ai exampleCache)" by (simp add: exampleCache_def)
  from empty_string_asymmetry
         [of exampleEnv exampleCache exampleWorld "[]" "[''b'', []]" ?req 1]
  have single: "processSingleRequest exampleEnv exampleCache exampleWorld
                  \<lparr>ReqInput = IfString [], ReqModel = []\<rparr>
                = (Inl InputTextCannotBeEmpty, exampleWorld)"
    and valid: "ValidateRequest exampleCache
                  \<lparr>ReqInput = IfSlice (map IfString [''b'', []]), ReqModel = []\<rparr> = None"
    and batch: "\<exists>items' n.
        fst (GetBatchCachedEmbeddings exampleEnv exampleWorld
               (prepareBatchItems exampleEnv [''b'', []] (modelNameOf exampleCache ?req)))
          = Inr items'
        \<and> Cached (items' ! 1) = None
        \<and> [] \<in> set (map Input (getUncachedItems items'))
        \<and> apiCalls (snd (processBatchRequest exampleEnv exampleCache exampleWorld ?req))
            = apiCalls exampleWorld @ replicate n (map Input (getUncachedItems items'))
        \<and> (0 \<le> maxRetries (ai exampleCache) \<longrightarrow> 0 < n)"
    using a b by blast+
  from batch retries m have
    "\<exists>items' n.
        fst (GetBatchCachedEmbeddings exampleEnv exampleWorld
               (prepareBatchItems exampleEnv [''b'', []] ''m'')) = Inr items'
        \<and> Cached (items' ! 1) = None
        \<and> [] \<in> set (map Input (getUncachedItems items'))
        \<and> apiCalls (snd (processBatchRequest exampleEnv exampleCache exampleWorld ?req))
            = apiCalls exampleWorld @ replicate n (map Input (getUncachedItems items'))
        \<and> 0 < n"
    by auto
  with single valid show ?thesis by blast
qed

section \<open>Properties of the batch path\<close>

text \<open>The fields the lookup leaves alone, and what the two loops of
  \<open>assembleBatchResults\<close> write.\<close>

lemma list_update_Cached_Index:
  "map Index (items[p := (items ! p)\<lparr>Cached := c\<rparr>]) = map Index items"
  by (induction items arbitrary: p) (simp_all split: nat.splits)

lemma attachCached_Index: "map Index (attachCached m r items) = map Index items"
  by (simp add: attachCached_def list_update_Cached_Index split: option.splits)

lemma fold_attach_Index: "map Index (fold (attachCached m) embs items) = map Index items"
  by (induction embs arbitrary: items) (simp_all add: attachCached_Index)

lemma fold_attach_Hash: "map Hash (fold (attachCached m) embs items) = map Hash items"
  by (induction embs arbitrary: items) (simp_all add: attachCached_Hash)

lemma prepare_Index: "map Index (prepareBatchItems e inputs modelName) = [0..<length inputs]"
  by (rule nth_equalityI) (simp_all add: prepare_length prepare_nth)

lemma prepare_Input: "map Input (prepareBatchItems e inputs modelName) = inputs"
  by (rule nth_equalityI) (simp_all add: prepare_length prepare_nth)

lemma prepare_Hash:
  "map Hash (prepareBatchItems e inputs modelName)
     = map (\<lambda>s. GenerateInputHash (sum256 e) s modelName) inputs"
  by (rule nth_equalityI) (simp_all add: prepare_length prepare_nth)

lemma placeCached_length: "length (placeCached its results) = length results"
  by (induction its arbitrary: results) (simp_all split: option.splits)

lemma placeCached_other:
  "\<forall>it\<in>set its. Cached it \<noteq> None \<longrightarrow> Index it \<noteq> p
     \<Longrightarrow> placeCached its results ! p = results ! p"
  by (induction its arbitrary: results) (auto split: option.splits)

lemma placeCached_hit:
  "distinct (map Index its) \<Longrightarrow> it \<in> set its \<Longrightarrow> Cached it = Some c
     \<Longrightarrow> Index it < length results
     \<Longrightarrow> placeCached its results ! Index it
           = Some \<lparr>ResEmbedding = EmbeddingVector c, ResCached = True, ResIndex = Index it\<rparr>"
proof (induction its arbitrary: results)
  case Nil
  then show ?case by simp
next
  case (Cons x rest)
  show ?case
  proof (cases "x = it")
    case True
    from Cons.prems(1) True have "\<forall>y\<in>set rest. Cached y \<noteq> None \<longrightarrow> Index y \<noteq> Index it"
      by (metis distinct.simps(2) imageI list.simps(9) set_map)
    then have "placeCached rest
                 (results[Index it := Some \<lparr>ResEmbedding = EmbeddingVector c, ResCached = True,
                                              ResIndex = Index it\<rparr>]) ! Index it
               = results[Index it := Some \<lparr>ResEmbedding = EmbeddingVector c, ResCached = True,
                                             ResIndex = Index it\<rparr>] ! Index it"
      by (rule placeCached_other)
    with True Cons.prems(3,4) show ?thesis by simp
  next
    case False
    with Cons.prems have "it \<in> set rest" and "distinct (map Index rest)" by auto
    then show ?thesis
      using Cons.IH Cons.prems(3,4) by (simp split: option.splits)
  qed
qed

lemma placeComputed_length: "length (placeComputed its i embs results) = length results"
  by (induction its arbitrary: i results) simp_all

lemma placeComputed_other:
  "\<forall>it\<in>set its. Index it \<noteq> p \<Longrightarrow> placeComputed its i embs results ! p = results ! p"
  by (induction its arbitrary: i results) auto

lemma placeComputed_at:
  "distinct (map Index its) \<Longrightarrow> k < length its \<Longrightarrow> i + k < length embs
     \<Longrightarrow> Index (its ! k) < length results
     \<Longrightarrow> placeComputed its i embs results ! Index (its ! k)
           = Some \<lparr>ResEmbedding = embs ! (i + k), ResCached = False, ResIndex = Index (its ! k)\<rparr>"
proof (induction its arbitrary: i k results)
  case Nil
  then show ?case by simp
next
  case (Cons x rest)
  show ?case
  proof (cases k)
    case 0
    from Cons.prems(1) have "\<forall>y\<in>set rest. Index y \<noteq> Index x"
      by (metis distinct.simps(2) imageI list.simps(9) set_map)
    then have "placeComputed rest (i + 1) embs
                 (results[Index x := Some \<lparr>ResEmbedding = embs ! i, ResCached = False,
                                            ResIndex = Index x\<rparr>]) ! Index x
               = results[Index x := Some \<lparr>ResEmbedding = embs ! i, ResCached = False,
                                           ResIndex = Index x\<rparr>] ! Index x"
      by (rule placeComputed_other)
    with 0 Cons.prems(3,4) show ?thesis by simp
  next
    case (Suc k')
    with Cons.prems have d: "distinct (map Index rest)" and k': "k' < length rest"
      and e: "(i + 1) + k' < length embs" by auto
    let ?results = "if i < length embs
                    then results[Index x := Some \<lparr>ResEmbedding = embs ! i, ResCached = False,
                                                    ResIndex = Index x\<rparr>]
                    else results"
    have l: "Index (rest ! k') < length ?results" using Cons.prems(4) Suc by simp
    have "placeComputed rest (i + 1) embs ?results ! Index (rest ! k')
            = Some \<lparr>ResEmbedding = embs ! ((i + 1) + k'), ResCached = False,
                     ResIndex = Index (rest ! k')\<rparr>"
      using d k' e l by (rule Cons.IH)
    with Suc show ?thesis by simp
  qed
qed

lemma filter_rank:
  assumes "p < length xs" and "P (xs ! p)"
  shows "length (filter P (take p xs)) < length (filter P xs)
         \<and> filter P xs ! length (filter P (take p xs)) = xs ! p"
proof -
  have "xs = take p xs @ xs ! p # drop (Suc p) xs"
    using assms(1) by (simp add: id_take_nth_drop)
  then have "filter P xs = filter P (take p xs) @ xs ! p # filter P (drop (Suc p) xs)"
    using assms(2) by (metis filter.simps(2) filter_append)
  then show ?thesis by (simp add: nth_append)
qed

text \<open>The assembled results, for items whose \<open>Index\<close> is their position.\<close>

lemma assemble_hit:
  assumes idx: "map Index items = [0..<length items]"
    and p: "p < length items" and c: "Cached (items ! p) = Some cached"
  shows "assembleBatchResults items (getUncachedItems items) aiResponse (length items) ! p
           = Some \<lparr>ResEmbedding = EmbeddingVector cached, ResCached = True, ResIndex = p\<rparr>"
proof -
  have ip: "Index (items ! p) = p"
    using idx p by (metis add_0 nth_map nth_upt)
  have d: "distinct (map Index items)" using idx by simp
  have inj: "q = p" if "q < length items" "Index (items ! q) = p" for q
    using that idx by (metis add_0 nth_map nth_upt)
  have pc: "placeCached items (replicate (length items) None) ! Index (items ! p)
              = Some \<lparr>ResEmbedding = EmbeddingVector cached, ResCached = True,
                       ResIndex = Index (items ! p)\<rparr>"
    using d _ c by (rule placeCached_hit) (use p ip in simp_all)
  have "\<forall>it\<in>set (getUncachedItems items). Index it \<noteq> p"
  proof
    fix it assume "it \<in> set (getUncachedItems items)"
    then have "it \<in> set items" and n: "Cached it = None" by (simp_all add: getUncachedItems_def)
    then obtain q where q: "q < length items" "items ! q = it" by (auto simp: in_set_conv_nth)
    show "Index it \<noteq> p"
    proof
      assume "Index it = p"
      with q inj have "q = p" by simp
      with q n c show False by simp
    qed
  qed
  then show ?thesis using pc ip by (simp add: assembleBatchResults_def placeComputed_other)
qed

lemma assemble_miss:
  assumes idx: "map Index items = [0..<length items]"
    and p: "p < length items" and c: "Cached (items ! p) = None"
    and len: "length (AiEmbeddings r) = length (getUncachedItems items)"
  shows "assembleBatchResults items (getUncachedItems items) (Some r) (length items) ! p
           = Some \<lparr>ResEmbedding =
                      AiEmbeddings r ! length (filter (\<lambda>it. Cached it = None) (take p items)),
                    ResCached = False, ResIndex = p\<rparr>"
proof -
  let ?k = "length (filter (\<lambda>it. Cached it = None) (take p items))"
  let ?unc = "getUncachedItems items"
  have ip: "Index (items ! p) = p"
    using idx p by (metis add_0 nth_map nth_upt)
  have d: "distinct (map Index ?unc)"
    using idx by (simp add: getUncachedItems_def distinct_map_filter)
  have k: "?k < length ?unc" and uk: "?unc ! ?k = items ! p"
    using filter_rank [of p items "\<lambda>it. Cached it = None"] p c
    by (simp_all add: getUncachedItems_def)
  have l: "Index (?unc ! ?k) < length (placeCached items (replicate (length items) None))"
    using uk ip p by (simp add: placeCached_length)
  have "placeComputed ?unc 0 (AiEmbeddings r)
          (placeCached items (replicate (length items) None)) ! Index (?unc ! ?k)
        = Some \<lparr>ResEmbedding = AiEmbeddings r ! (0 + ?k), ResCached = False,
                 ResIndex = Index (?unc ! ?k)\<rparr>"
    using d k _ l by (rule placeComputed_at) (use k len in simp)
  then show ?thesis using uk ip by (simp add: assembleBatchResults_def)
qed

lemma assemble_length:
  "length (assembleBatchResults items uncached aiResponse n) = n"
  by (simp add: assembleBatchResults_def placeComputed_length placeCached_length)

lemma scanData_all_nonempty:
  "list_all (\<lambda>d. d \<noteq> []) data \<Longrightarrow> scanData data i lastErr = lastErr"
  by (induction data arbitrary: i lastErr) simp_all

lemma CreateBatchEmbeddings_first_success:
  assumes "inputs \<noteq> []" and "length inputs \<le> 1000" and "0 \<le> maxRetries c"
    and "apiReply e (length (apiCalls w)) (model c) inputs = ApiOk data m pt tt"
    and "data \<noteq> []" and "list_all (\<lambda>d. d \<noteq> []) data"
  shows "CreateBatchEmbeddings e c w inputs
           = (Inr \<lparr>AiEmbedding = [], AiEmbeddings = data, AiModel = m,
                   AiTokenUsage = usageOf pt tt\<rparr>,
              w\<lparr>apiCalls := apiCalls w @ [inputs]\<rparr>)"
  using assms
  by (simp add: CreateBatchEmbeddings_def retryLoop.simps [of e c inputs 0]
        scanData_all_nonempty)

lemma filter_aligned:
  assumes "\<forall>x\<in>set xs. P x = Q (f x)"
  shows "map f (filter P xs) = filter Q (map f xs)"
  using assms by (induction xs) simp_all

lemma lookup_result:
  assumes u: "distinct (map InputHash (embedding_cache w))"
    and dh: "distinct (map (\<lambda>s. GenerateInputHash (sum256 e) s modelName) inputs)"
    and p: "p < length inputs"
  shows "Cached (fold (attachCached (buildHashToItem (prepareBatchItems e inputs modelName) 0 Map.empty))
                   (filter (\<lambda>r. InputHash r \<in> set (map Hash (prepareBatchItems e inputs modelName)))
                      (embedding_cache w))
                   (prepareBatchItems e inputs modelName) ! p)
           = find (\<lambda>r. InputHash r = GenerateInputHash (sum256 e) (inputs ! p) modelName)
               (embedding_cache w)"
proof -
  let ?H = "\<lambda>s. GenerateInputHash (sum256 e) s modelName"
  let ?items = "prepareBatchItems e inputs modelName"
  let ?embs = "filter (\<lambda>r. InputHash r \<in> set (map Hash ?items)) (embedding_cache w)"
  have pl: "p < length ?items" using p by (simp add: prepare_length)
  have hp: "Hash (?items ! p) = ?H (inputs ! p)" using p by (simp add: prepare_nth)
  show ?thesis
  proof (cases "find (\<lambda>r. InputHash r = ?H (inputs ! p)) (embedding_cache w)")
    case None
    then have "\<forall>r\<in>set (embedding_cache w). InputHash r \<noteq> ?H (inputs ! p)"
      by (simp add: find_None_iff)
    then have "Hash (?items ! p) \<notin> InputHash ` set ?embs" using hp by auto
    with pl have "fold (attachCached (buildHashToItem ?items 0 Map.empty)) ?embs ?items ! p
                    = ?items ! p"
      by (rule lookup_not_stored)
    with None p show ?thesis by (simp add: prepare_nth)
  next
    case (Some r)
    then have r: "r \<in> set (embedding_cache w)" and hr: "InputHash r = ?H (inputs ! p)"
      by (auto simp: find_Some_iff in_set_conv_nth)
    have "Cached (fold (attachCached (buildHashToItem ?items 0 Map.empty)) ?embs ?items ! p)
            = Some r"
    proof (rule lookup_last_occurrence)
      show "distinct (map InputHash ?embs)" using u by (rule distinct_map_filter)
      have "Hash (?items ! p) \<in> set (map Hash ?items)" using pl by simp
      then show "r \<in> set ?embs" using r hr hp by simp
      show "p < length ?items" by (rule pl)
      show "Hash (?items ! p) = InputHash r" using hr hp by simp
      show "\<forall>q. p < q \<and> q < length ?items \<longrightarrow> Hash (?items ! q) \<noteq> InputHash r"
      proof (intro allI impI)
        fix q assume q: "p < q \<and> q < length ?items"
        then have ql: "q < length inputs" by (simp add: prepare_length)
        have "(map ?H inputs ! q = map ?H inputs ! p) = (q = p)"
          using dh ql p by (intro nth_eq_iff_index_eq) simp_all
        then have "?H (inputs ! q) \<noteq> ?H (inputs ! p)" using q ql p by simp
        then show "Hash (?items ! q) \<noteq> InputHash r" using ql p hr by (simp add: prepare_nth)
      qed
    qed
    with Some show ?thesis by simp
  qed
qed

lemma processBatchRequest_result:
  assumes "normalizeInput_cache (ReqInput req) = Inr inputs"
    and "inputs \<noteq> []" and "length inputs \<le> 1000"
    and "GetBatchCachedEmbeddings e w (prepareBatchItems e inputs (modelNameOf c req))
           = (Inr items', w1)"
    and "resolveUncached e c (trackHits c w1 items') (getUncachedItems items') (modelNameOf c req)
           = (Inr aiResponse, w3)"
  shows "processBatchRequest e c w req
           = (Inr \<lparr>Embedding = [],
                   Embeddings = extractEmbeddings
                     (assembleBatchResults items' (getUncachedItems items') aiResponse (length inputs)),
                   Model = modelNameOf c req, RespCached = False,
                   CachedItems = extractCachedFlags
                     (assembleBatchResults items' (getUncachedItems items') aiResponse (length inputs)),
                   RespTokenUsage = noUsage\<rparr>, w3)"
  using assms by (simp add: processBatchRequest_def Let_def)

lemma extract_nth:
  "p < length results \<Longrightarrow>
     results ! p = Some \<lparr>ResEmbedding = v, ResCached = b, ResIndex = k\<rparr> \<Longrightarrow>
     extractEmbeddings results ! p = v \<and> extractCachedFlags results ! p = b"
  by (simp add: extractEmbeddings_def extractCachedFlags_def)

lemma find_hash_None:
  "(find (\<lambda>r. InputHash r = h) rows = None) = (h \<notin> InputHash ` set rows)"
  by (induction rows) auto

lemma find_hash_Some:
  "find (\<lambda>r. InputHash r = h) rows = Some r \<Longrightarrow> r \<in> set rows \<and> InputHash r = h"
  by (induction rows) (auto split: if_splits)

text \<open>
  The batch path on a batch whose fingerprints are pairwise distinct, when the lookup
  succeeds and the provider answers the first call with one non-empty vector per miss:
  the response has one vector and one flag per input, the flag at \<open>p\<close> says whether the
  fingerprint of input \<open>p\<close> is stored, and the vector at \<open>p\<close> is the stored one for a hit
  and otherwise the provider's vector for that miss (the \<open>k\<close>-th vector for the \<open>k\<close>-th miss).
\<close>

lemma batch_ordering_distinct:
  assumes u: "distinct (map InputHash (embedding_cache w))"
    and ok: "\<not> dbFault e (dbStmts w)"
    and inp: "normalizeInput_cache (ReqInput req) = Inr inputs"
    and ne: "inputs \<noteq> []" and le: "length inputs \<le> 1000"
    and dh: "distinct (map (\<lambda>s. GenerateInputHash (sum256 e) s (modelNameOf c req)) inputs)"
    and misses: "misses = filter (\<lambda>s. GenerateInputHash (sum256 e) s (modelNameOf c req)
                                        \<notin> InputHash ` set (embedding_cache w)) inputs"
    and provider: "misses \<noteq> [] \<Longrightarrow>
                     0 \<le> maxRetries (ai c)
                     \<and> apiReply e (length (apiCalls w)) (model (ai c)) misses = ApiOk data m pt tt
                     \<and> length data = length misses \<and> list_all (\<lambda>d. d \<noteq> []) data"
  shows "\<exists>response.
           fst (processBatchRequest e c w req) = Inr response
           \<and> length (Embeddings response) = length inputs
           \<and> length (CachedItems response) = length inputs
           \<and> (\<forall>p<length inputs.
                 CachedItems response ! p
                   = (GenerateInputHash (sum256 e) (inputs ! p) (modelNameOf c req)
                        \<in> InputHash ` set (embedding_cache w))
                 \<and> Embeddings response ! p
                     = (case find (\<lambda>r. InputHash r
                                         = GenerateInputHash (sum256 e) (inputs ! p) (modelNameOf c req))
                               (embedding_cache w) of
                          Some r \<Rightarrow> EmbeddingVector r
                        | None \<Rightarrow>
                            data ! length (filter (\<lambda>s. GenerateInputHash (sum256 e) s (modelNameOf c req)
                                                         \<notin> InputHash ` set (embedding_cache w))
                                             (take p inputs))))"
proof -
  let ?mn = "modelNameOf c req"
  let ?H = "\<lambda>s. GenerateInputHash (sum256 e) s ?mn"
  let ?miss = "\<lambda>s. ?H s \<notin> InputHash ` set (embedding_cache w)"
  let ?items = "prepareBatchItems e inputs ?mn"
  let ?embs = "filter (\<lambda>r. InputHash r \<in> set (map Hash ?items)) (embedding_cache w)"
  let ?items' = "fold (attachCached (buildHashToItem ?items 0 Map.empty)) ?embs ?items"
  let ?unc = "getUncachedItems ?items'"
  let ?w1 = "w\<lparr>dbStmts := dbStmts w + 1\<rparr>"
  let ?w2 = "trackHits c ?w1 ?items'"
  have N: "length ?items' = length inputs" by (simp add: fold_attach_length prepare_length)
  have ine: "?items \<noteq> []" using ne prepare_length [of e inputs ?mn] by auto
  have g: "GetBatchCachedEmbeddings e w ?items = (Inr ?items', ?w1)"
    using ine ok by (rule lookup_ok)
  have idx: "map Index ?items' = [0..<length ?items']"
    by (simp add: fold_attach_Index prepare_Index fold_attach_length prepare_length)
  have inputs': "map Input ?items' = inputs"
    by (simp add: fold_attach_Input prepare_Input)
  have cached: "Cached (?items' ! p) = find (\<lambda>r. InputHash r = ?H (inputs ! p)) (embedding_cache w)"
    if "p < length inputs" for p
    using u dh that by (rule lookup_result)
  have classify: "(Cached (?items' ! p) = None) = ?miss (inputs ! p)" if "p < length inputs" for p
    using cached [OF that] by (simp add: find_hash_None)
  have aligned: "\<forall>x\<in>set ?items'. (Cached x = None) = ?miss (Input x)"
  proof
    fix x assume "x \<in> set ?items'"
    then obtain p where p: "p < length ?items'" "?items' ! p = x" by (auto simp: in_set_conv_nth)
    then have "Input x = inputs ! p" using inputs' by (metis nth_map)
    with classify [of p] p N show "(Cached x = None) = ?miss (Input x)" by simp
  qed
  have texts: "map Input ?unc = misses"
    using filter_aligned [where xs = ?items' and P = "\<lambda>it. Cached it = None" and Q = ?miss
                            and f = Input, OF aligned] inputs' misses
    by (simp add: getUncachedItems_def)
  have rank: "length (filter (\<lambda>it. Cached it = None) (take p ?items'))
                = length (filter ?miss (take p inputs))" for p
  proof -
    have "\<forall>x\<in>set (take p ?items'). (Cached x = None) = ?miss (Input x)"
      using aligned by (meson in_set_takeD)
    then have "map Input (filter (\<lambda>it. Cached it = None) (take p ?items'))
                 = filter ?miss (map Input (take p ?items'))"
      by (rule filter_aligned [where P = "\<lambda>it. Cached it = None" and Q = ?miss and f = Input])
    moreover have "map Input (take p ?items') = take p inputs"
      by (metis inputs' take_map)
    ultimately have "map Input (filter (\<lambda>it. Cached it = None) (take p ?items'))
                 = filter ?miss (take p inputs)"
      by (rule trans [OF _ arg_cong])
    then show ?thesis by (metis length_map)
  qed
  have hit: "?H (inputs ! p) \<in> InputHash ` set (embedding_cache w)
             \<Longrightarrow> \<exists>r. find (\<lambda>r. InputHash r = ?H (inputs ! p)) (embedding_cache w) = Some r"
    for p
    by (cases "find (\<lambda>r. InputHash r = ?H (inputs ! p)) (embedding_cache w)")
       (simp_all add: find_hash_None)
  obtain aiResponse w3 where
    resolved: "resolveUncached e c ?w2 ?unc ?mn = (Inr aiResponse, w3)"
    and embs: "?unc \<noteq> [] \<Longrightarrow> \<exists>r. aiResponse = Some r \<and> AiEmbeddings r = data"
  proof (cases "?unc = []")
    case True
    then have "resolveUncached e c ?w2 ?unc ?mn = (Inr None, ?w2)"
      by (simp add: resolveUncached_def)
    with True that show ?thesis by simp
  next
    case False
    then have mne: "misses \<noteq> []" using texts by auto
    have "length ?unc \<le> length ?items'" by (simp add: getUncachedItems_def)
    with le N have ul: "length (map Input ?unc) \<le> 1000" by simp
    have calls: "apiCalls ?w2 = apiCalls w" by (simp add: trackHits_apiCalls)
    have "CreateBatchEmbeddings e (ai c) ?w2 (map Input ?unc)
            = (Inr \<lparr>AiEmbedding = [], AiEmbeddings = data, AiModel = m,
                    AiTokenUsage = usageOf pt tt\<rparr>,
               ?w2\<lparr>apiCalls := apiCalls ?w2 @ [map Input ?unc]\<rparr>)"
    proof (rule CreateBatchEmbeddings_first_success)
      show "map Input ?unc \<noteq> []" using False by simp
      show "length (map Input ?unc) \<le> 1000" by (rule ul)
      show "0 \<le> maxRetries (ai c)" using provider [OF mne] by simp
      show "apiReply e (length (apiCalls ?w2)) (model (ai c)) (map Input ?unc) = ApiOk data m pt tt"
        using provider [OF mne] texts calls by simp
      show "data \<noteq> []" using provider [OF mne] mne by auto
      show "list_all (\<lambda>d. d \<noteq> []) data" using provider [OF mne] by simp
    qed
    then have "\<exists>w3. resolveUncached e c ?w2 ?unc ?mn
                 = (Inr (Some \<lparr>AiEmbedding = [], AiEmbeddings = data, AiModel = m,
                               AiTokenUsage = usageOf pt tt\<rparr>), w3)"
      using False by (simp add: resolveUncached_def createBatchEmbeddings_def)
    with that show ?thesis by auto
  qed
  let ?results = "assembleBatchResults ?items' ?unc aiResponse (length inputs)"
  have result: "processBatchRequest e c w req
                  = (Inr \<lparr>Embedding = [], Embeddings = extractEmbeddings ?results, Model = ?mn,
                          RespCached = False, CachedItems = extractCachedFlags ?results,
                          RespTokenUsage = noUsage\<rparr>, w3)"
    using inp ne le g resolved by (rule processBatchRequest_result)
  have rl: "length ?results = length inputs" by (rule assemble_length)
  have at: "extractCachedFlags ?results ! p = (?H (inputs ! p) \<in> InputHash ` set (embedding_cache w))
            \<and> extractEmbeddings ?results ! p
                = (case find (\<lambda>r. InputHash r = ?H (inputs ! p)) (embedding_cache w) of
                     Some r \<Rightarrow> EmbeddingVector r
                   | None \<Rightarrow> data ! length (filter ?miss (take p inputs)))"
    if p: "p < length inputs" for p
  proof (cases "find (\<lambda>r. InputHash r = ?H (inputs ! p)) (embedding_cache w)")
    case None
    then have miss: "?miss (inputs ! p)" by (simp add: find_hash_None)
    have cn: "Cached (?items' ! p) = None" using cached [OF p] None by simp
    have pl: "p < length ?items'" using p N by simp
    have "?items' ! p \<in> set ?unc" using cn pl by (simp add: getUncachedItems_def)
    then have "?unc \<noteq> []" by auto
    from embs [OF this] obtain r where r: "aiResponse = Some r" "AiEmbeddings r = data" by blast
    have "length misses = length ?unc" using texts by (metis length_map)
    moreover from this \<open>?unc \<noteq> []\<close> have "misses \<noteq> []" by auto
    ultimately have "length (AiEmbeddings r) = length ?unc"
      using r(2) provider by simp
    from assemble_miss [OF idx pl cn this]
    have "?results ! p
            = Some \<lparr>ResEmbedding = data ! length (filter ?miss (take p inputs)),
                     ResCached = False, ResIndex = p\<rparr>"
      using r N rank [of p] by simp
    from extract_nth [OF _ this] p rl None miss show ?thesis by simp
  next
    case (Some r)
    then have stored: "?H (inputs ! p) \<in> InputHash ` set (embedding_cache w)"
      using find_hash_Some by force
    have cs: "Cached (?items' ! p) = Some r" using cached [OF p] Some by simp
    have pl: "p < length ?items'" using p N by simp
    from assemble_hit [OF idx pl cs, of aiResponse]
    have "?results ! p = Some \<lparr>ResEmbedding = EmbeddingVector r, ResCached = True, ResIndex = p\<rparr>"
      using N by simp
    from extract_nth [OF _ this] p rl Some stored show ?thesis by simp
  qed
  have lens: "length (extractEmbeddings ?results) = length inputs"
    "length (extractCachedFlags ?results) = length inputs"
    using rl by (simp_all add: extractEmbeddings_def extractCachedFlags_def)
  let ?response = "\<lparr>Embedding = [], Embeddings = extractEmbeddings ?results, Model = ?mn,
                     RespCached = False, CachedItems = extractCachedFlags ?results,
                     RespTokenUsage = noUsage\<rparr>"
  have "fst (processBatchRequest e c w req) = Inr ?response" using result by simp
  moreover have "length (Embeddings ?response) = length inputs"
    and "length (CachedItems ?response) = length inputs"
    using lens by simp_all
  moreover have "\<forall>p<length inputs.
      CachedItems ?response ! p = (?H (inputs ! p) \<in> InputHash ` set (embedding_cache w))
      \<and> Embeddings ?response ! p
          = (case find (\<lambda>r. InputHash r = ?H (inputs ! p)) (embedding_cache w) of
               Some r \<Rightarrow> EmbeddingVector r
             | None \<Rightarrow> data ! length (filter ?miss (take p inputs)))"
    using at by simp
  ultimately show ?thesis by blast
qed

text \<open>
  C1 fails on the code. The table holds the entry for \<open>"a"\<close>, and the batch is
  \<open>["a", "a"]\<close>. \<open>hashToItem\<close> keeps one item per fingerprint, the last, so the lookup
  attaches the entry to position 1 only: position 0 is reported as a miss, its text is
  sent to the provider, and the response holds the provider's vector there instead of
  the stored one.
\<close>

theorem duplicate_hit_reported_as_miss:
  "(case fst (processBatchRequest exampleEnv exampleCache exampleWorld
                \<lparr>ReqInput = IfSlice [IfString ''a'', IfString ''a''], ReqModel = []\<rparr>) of
      Inl err \<Rightarrow> False
    | Inr response \<Rightarrow>
        CachedItems response = [False, True] \<and> Embeddings response = [[2], [7]])
   \<and> apiCalls (snd (processBatchRequest exampleEnv exampleCache exampleWorld
                       \<lparr>ReqInput = IfSlice [IfString ''a'', IfString ''a''], ReqModel = []\<rparr>))
       = [[''a'']]
   \<and> InputHash exampleRow = GenerateInputHash (sum256 exampleEnv) ''a'' ''m''
   \<and> EmbeddingVector exampleRow = [7]"
  by (simp add: batch_eval)

text \<open>The response of the batch path never carries a usage.\<close>

lemma processBatchRequest_usage:
  "fst (processBatchRequest e c w req) = Inr response \<Longrightarrow> RespTokenUsage response = noUsage"
  by (auto simp: processBatchRequest_def Let_def split: sum.splits if_splits prod.splits)

text \<open>
  C3 fails on the code. On an empty table the batch \<open>["c"]\<close> is a miss; the provider is
  called once and reports a usage of 3 tokens, and the response of the batch path
  carries a usage of 0: \<open>processBatchRequest\<close> never copies \<open>aiResponse.TokenUsage\<close>.
\<close>

theorem batch_usage_dropped:
  "(case fst (processBatchRequest exampleEnv exampleCache
                (exampleWorld\<lparr>embedding_cache := []\<rparr>)
                \<lparr>ReqInput = IfSlice [IfString ''c''], ReqModel = []\<rparr>) of
      Inl err \<Rightarrow> False
    | Inr response \<Rightarrow>
        RespTokenUsage response = \<lparr>PromptTokens = 0, TotalTokens = 0\<rparr>
        \<and> CachedItems response = [False])
   \<and> apiCalls (snd (processBatchRequest exampleEnv exampleCache
                       (exampleWorld\<lparr>embedding_cache := []\<rparr>)
                       \<lparr>ReqInput = IfSlice [IfString ''c''], ReqModel = []\<rparr>))
       = [[''c'']]
   \<and> apiReply exampleEnv 0 ''m'' [''c''] = ApiOk [[2]] ''m'' 3 3"
  by (simp add: batch_eval)


section \<open>Properties of the provider client\<close>

text \<open>Once an attempt has failed, no later attempt makes the call succeed.\<close>

lemma scanData_keeps_error: "lastErr \<noteq> None \<Longrightarrow> scanData data i lastErr \<noteq> None"
  by (induction data arbitrary: i lastErr) auto

lemma retryLoop_never_recovers:
  "lastErr \<noteq> None \<Longrightarrow> \<exists>err. fst (retryLoop e c inputs attempt lastErr w) = Inl err"
proof (induction e c inputs attempt lastErr w rule: retryLoop.induct)
  case (1 e c inputs attempt lastErr w)
  show ?case
  proof (cases "attempt \<le> maxRetries c \<and> \<not> (0 < attempt \<and> ctxDone e (length (apiCalls w)))")
    case False
    then show ?thesis by (subst retryLoop.simps) auto
  next
    case True
    then have a: "attempt \<le> maxRetries c"
      and b: "\<not> (0 < attempt \<and> ctxDone e (length (apiCalls w)))" by auto
    show ?thesis
    proof (cases "apiReply e (length (apiCalls w)) (model c) inputs")
      case (ApiFail err)
      from "1.IH"(1) [OF a b ApiFail] a b ApiFail show ?thesis
        by (subst retryLoop.simps) auto
    next
      case (ApiOk data respModel promptTokens totalTokens)
      have bad: "scanData data 0 lastErr \<noteq> None"
        using "1.prems" by (rule scanData_keeps_error)
      show ?thesis
      proof (cases "data = []")
        case True
        from "1.IH"(2) [OF a b ApiOk True] a b ApiOk True show ?thesis
          by (subst retryLoop.simps) auto
      next
        case False
        from "1.IH"(3) [OF a b ApiOk False bad bad] a b ApiOk False bad show ?thesis
          by (subst retryLoop.simps) auto
      qed
    qed
  qed
qed

text \<open>
  C2 fails on the code. \<open>lastErr\<close> is never reset, so after one failed attempt the test
  \<open>if lastErr != nil { continue }\<close> discards every later response. With
  \<open>maxRetries = 1\<close>, a provider whose first call fails and whose second call returns one
  non-empty vector, the call makes both attempts and returns the error of the
  exhausted retries, wrapping the first failure.
\<close>

theorem retry_discards_success:
  "CreateBatchEmbeddings
     \<lparr>sum256 = (\<lambda>s. 0), dbFault = (\<lambda>k. False), dbNow = (\<lambda>k. k), dbUuid = (\<lambda>k. k),
      apiReply = (\<lambda>k m inputs. if k = 0 then ApiFail ''timeout'' else ApiOk [[1]] m 3 3),
      ctxDone = (\<lambda>k. False)\<rparr>
     \<lparr>model = ''m'', maxRetries = 1\<rparr>
     \<lparr>embedding_cache = [], dbStmts = 0, apiCalls = [], tracked = []\<rparr>
     [''a'']
   = (Inl (AfterAttempts 2 (Some (TransportErr ''timeout''))),
      \<lparr>embedding_cache = [], dbStmts = 0, apiCalls = [[''a''], [''a'']], tracked = []\<rparr>)"
  by code_simp

section \<open>Properties of the usage tracker\<close>

text \<open>
  C8 fails on the code. An id is enqueued, then \<open>Stop\<close> closes both channels; the
  \<open>select\<close> of the ingest goroutine has two ready cases and takes \<open>stopChan\<close>, the timer
  goroutine ends, \<open>wg.Wait()\<close> returns and the final \<open>flushBuffer\<close> finds the buffer
  empty. \<open>Stop\<close> has returned, the id is still in the channel, and no batch was ever
  handed to \<open>updateUsageTimestamps\<close>.
\<close>

theorem stop_loses_enqueued:
  "run [Track 7, StopCall, IngestStop, TimerStop, StopReturn] (newTracker 50)
   = Some \<lparr>usageChan = [7], chanClosed = True, stopClosed = True, ctxCancelled = False,
            buffer = [], flushed = [], ingestRunning = False, timerRunning = False,
            stopReturned = True, batchSize = 50\<rparr>"
  by code_simp

end
